theory Spec2Isabelle
  imports Main "HOL-Library.Code_Target_Nat"
begin

section \<open>Text\<close>

text \<open>
  A Python \<open>str\<close> is a sequence of Unicode code points.  The texts of this program are
  Hebrew, so a text is a list of code points (natural numbers), not of bytes.
\<close>

type_synonym ustr = "nat list"

definition lit :: "string \<Rightarrow> ustr" where
  "lit s = map of_char s"

text \<open>
  The characters that \<open>str.split()\<close>, \<open>str.strip()\<close> and the pattern \<open>\s\<close> of a
  \<open>str\<close> pattern treat as white space (\<open>Py_UNICODE_ISSPACE\<close>).
\<close>

definition isspace :: "nat \<Rightarrow> bool" where
  "isspace c \<longleftrightarrow>
     (9 \<le> c \<and> c \<le> 13) \<or> (28 \<le> c \<and> c \<le> 32) \<or> c = 133 \<or> c = 160 \<or> c = 5760 \<or>
     (8192 \<le> c \<and> c \<le> 8202) \<or> c = 8232 \<or> c = 8233 \<or> c = 8239 \<or> c = 8287 \<or>
     c = 12288"

text \<open>\<open>text.split()\<close>: the maximal runs of characters that are not white space.
  The first argument is the word read so far.\<close>

fun split_acc :: "ustr \<Rightarrow> ustr \<Rightarrow> ustr list" where
  "split_acc w [] = (if w = [] then [] else [w])"
| "split_acc w (c # cs) =
     (if isspace c then (if w = [] then split_acc [] cs else w # split_acc [] cs)
      else split_acc (w @ [c]) cs)"

definition str_split :: "ustr \<Rightarrow> ustr list" where
  "str_split s = split_acc [] s"

text \<open>\<open>text.strip()\<close>, \<open>text.lstrip(".")\<close>, \<open>text.rstrip(".")\<close>.\<close>

definition lstrip_with :: "(nat \<Rightarrow> bool) \<Rightarrow> ustr \<Rightarrow> ustr" where
  "lstrip_with P s = dropWhile P s"

definition rstrip_with :: "(nat \<Rightarrow> bool) \<Rightarrow> ustr \<Rightarrow> ustr" where
  "rstrip_with P s = rev (dropWhile P (rev s))"

definition str_strip :: "ustr \<Rightarrow> ustr" where
  "str_strip s = rstrip_with isspace (lstrip_with isspace s)"

text \<open>\<open>sep.join(ws)\<close>.\<close>

fun str_join :: "ustr \<Rightarrow> ustr list \<Rightarrow> ustr" where
  "str_join sep [] = []"
| "str_join sep [w] = w"
| "str_join sep (w # v # ws) = w @ sep @ str_join sep (v # ws)"

text \<open>
  \<open>xs[a:b]\<close> for integers \<open>a\<close>, \<open>b\<close>: a negative bound counts from the end, and both
  bounds are clipped to the list.
\<close>

definition slice_bound :: "nat \<Rightarrow> int \<Rightarrow> nat" where
  "slice_bound n a = (if a < 0 then nat (max (a + int n) 0) else min (nat a) n)"

definition slice :: "'a list \<Rightarrow> int \<Rightarrow> int \<Rightarrow> 'a list" where
  "slice xs a b =
     (let lo = slice_bound (length xs) a; hi = slice_bound (length xs) b
      in take (hi - lo) (drop lo xs))"

text \<open>\<open>text.find(sub, start)\<close> for \<open>start \<ge> 0\<close>: the least index at or after \<open>start\<close>
  where \<open>sub\<close> occurs, or \<open>-1\<close>.\<close>

definition str_find :: "ustr \<Rightarrow> ustr \<Rightarrow> nat \<Rightarrow> int" where
  "str_find s sub start =
     (case List.find (\<lambda>i. take (length sub) (drop i s) = sub) [start ..< Suc (length s)] of
        None \<Rightarrow> - 1
      | Some i \<Rightarrow> int i)"

text \<open>\<open>estimate_tokens\<close>: the number of white-space delimited words.\<close>

definition estimate_tokens :: "ustr \<Rightarrow> nat" where
  "estimate_tokens s = length (str_split s)"

section \<open>Configuration and chunks\<close>

text \<open>
  \<open>ChunkingConfig\<close> is a pydantic model of four \<open>int\<close> fields with defaults and no
  validator: the constructor accepts any four integers.
\<close>

record ChunkingConfig =
  target_tokens :: int
  max_tokens :: int
  min_tokens :: int
  overlap_tokens :: int

datatype error = ConfigurationError | IndexError | KeyError

definition mk_ChunkingConfig :: "int \<Rightarrow> int \<Rightarrow> int \<Rightarrow> int \<Rightarrow> error + ChunkingConfig" where
  "mk_ChunkingConfig target mx mn overlap =
     Inr \<lparr>target_tokens = target, max_tokens = mx, min_tokens = mn, overlap_tokens = overlap\<rparr>"

definition default_config :: ChunkingConfig where
  "default_config =
     \<lparr>target_tokens = 450, max_tokens = 800, min_tokens = 50, overlap_tokens = 50\<rparr>"

text \<open>The configurations the specification calls valid.\<close>

definition valid_config :: "ChunkingConfig \<Rightarrow> bool" where
  "valid_config cfg \<longleftrightarrow>
     0 < target_tokens cfg \<and> 0 < max_tokens cfg \<and> 0 < min_tokens cfg \<and>
     0 < overlap_tokens cfg \<and>
     min_tokens cfg \<le> target_tokens cfg \<and> target_tokens cfg \<le> max_tokens cfg \<and>
     overlap_tokens cfg < target_tokens cfg"

text \<open>
  \<open>Chunk\<close>.  The field \<open>id\<close>, a random UUID drawn at construction, is left out.
  Fields are prefixed with \<open>c_\<close> (\<open>Section\<close> has fields of the same names).
\<close>

record Chunk =
  c_text :: ustr
  c_book_id :: ustr
  c_book_title :: ustr
  c_book_author :: ustr
  c_section_path :: ustr
  c_section_type :: string
  c_chunk_index :: int
  c_total_chunks_in_section :: int
  c_language :: ustr
  c_char_start :: int
  c_char_end :: int
  c_token_count :: int

text \<open>The four metadata strings every chunking function passes down unchanged.\<close>

record BookMeta =
  book_id :: ustr
  book_title :: ustr
  book_author :: ustr
  language :: ustr

definition mk_Chunk ::
  "ustr \<Rightarrow> BookMeta \<Rightarrow> ustr \<Rightarrow> string \<Rightarrow> int \<Rightarrow> int \<Rightarrow> int \<Rightarrow> Chunk" where
  "mk_Chunk txt bk path ty cs ce tc =
     \<lparr>c_text = txt, c_book_id = book_id bk, c_book_title = book_title bk,
      c_book_author = book_author bk, c_section_path = path, c_section_type = ty,
      c_chunk_index = 0, c_total_chunks_in_section = 1, c_language = language bk,
      c_char_start = cs, c_char_end = ce, c_token_count = tc\<rparr>"

section \<open>Regular expressions\<close>

text \<open>
  The patterns of this program are sequences of anchors, single characters of a class
  and greedy repetitions of a class: \<open>Bol\<close> is \<open>^\<close> and \<open>Eol\<close> is \<open>$\<close>, both
  under \<open>re.MULTILINE\<close>; \<open>Cls P\<close> is one character of the class \<open>P\<close>;
  \<open>Rep P lo hi\<close> is \<open>P{lo,hi}\<close>, with \<open>hi = None\<close> for no upper bound.
\<close>

datatype item = Bol | Eol | Cls "nat \<Rightarrow> bool" | Rep "nat \<Rightarrow> bool" nat "nat option"

type_synonym pattern = "item list"

text \<open>A greedy repetition tries the largest count first and backs off one at a time.\<close>

fun try_counts :: "(nat \<Rightarrow> nat option) \<Rightarrow> nat \<Rightarrow> nat \<Rightarrow> nat option" where
  "try_counts f lo 0 = (if lo = 0 then f 0 else None)"
| "try_counts f lo (Suc k) =
     (if Suc k < lo then None
      else case f (Suc k) of Some r \<Rightarrow> Some r | None \<Rightarrow> try_counts f lo k)"

text \<open>The character before the position reached after \<open>k\<close> more characters of \<open>s\<close>.\<close>

definition prev_after :: "nat option \<Rightarrow> ustr \<Rightarrow> nat \<Rightarrow> nat option" where
  "prev_after prev s k = (if k = 0 then prev else Some (s ! (k - 1)))"

text \<open>
  \<open>match_items p prev s\<close>: the pattern matched at a position where \<open>prev\<close> is the
  character before it (\<open>None\<close> at the start of the text) and \<open>s\<close> is the text from
  it on; the result is the length of the match the backtracking engine finds first.
\<close>

fun match_items :: "pattern \<Rightarrow> nat option \<Rightarrow> ustr \<Rightarrow> nat option" where
  "match_items [] prev s = Some 0"
| "match_items (Bol # p) prev s =
     (if prev = None \<or> prev = Some 10 then match_items p prev s else None)"
| "match_items (Eol # p) prev s =
     (if s = [] \<or> hd s = 10 then match_items p prev s else None)"
| "match_items (Cls P # p) prev s =
     (case s of
        [] \<Rightarrow> None
      | c # cs \<Rightarrow> if P c then map_option Suc (match_items p (Some c) cs) else None)"
| "match_items (Rep P lo hi # p) prev s =
     (let n = length (takeWhile P s);
          kmax = (case hi of None \<Rightarrow> n | Some h \<Rightarrow> min h n)
      in try_counts
           (\<lambda>k. map_option (\<lambda>r. k + r) (match_items p (prev_after prev s k) (drop k s)))
           lo kmax)"

lemma try_counts_Some:
  "try_counts f lo k = Some r \<Longrightarrow> \<exists>j\<le>k. lo \<le> j \<and> f j = Some r"
proof (induction k)
  case 0
  then show ?case by (auto split: if_splits)
next
  case (Suc k)
  show ?case
  proof (cases "f (Suc k)")
    case None
    with Suc.prems have "try_counts f lo k = Some r"
      by (simp split: if_splits)
    from Suc.IH [OF this] obtain j where "j \<le> k" "lo \<le> j" "f j = Some r" by blast
    then show ?thesis by (intro exI [of _ j]) simp
  next
    case (Some r')
    with Suc.prems have "\<not> Suc k < lo" "r' = r"
      by (simp_all split: if_splits)
    then show ?thesis using Some by (intro exI [of _ "Suc k"]) simp
  qed
qed

lemma match_items_le: "match_items p prev s = Some n \<Longrightarrow> n \<le> length s"
proof (induction p prev s arbitrary: n rule: match_items.induct)
  case (5 P lo hi p prev s)
  let ?n = "length (takeWhile P s)"
  let ?kmax = "case hi of None \<Rightarrow> ?n | Some h \<Rightarrow> min h ?n"
  from "5.prems" obtain j where j: "j \<le> ?kmax"
    "map_option (\<lambda>r. j + r) (match_items p (prev_after prev s j) (drop j s)) = Some n"
    using try_counts_Some by (fastforce simp: Let_def)
  then obtain r where r: "match_items p (prev_after prev s j) (drop j s) = Some r" "n = j + r"
    by auto
  have "?kmax \<le> ?n" by (simp split: option.splits)
  then have jn: "j \<le> length s"
    using j(1) length_takeWhile_le [of P s] by linarith
  have "r \<le> length (drop j s)"
    using "5.IH" [OF refl refl r(1)] .
  then show ?case using r(2) jn by simp
qed (auto split: if_splits list.splits)

text \<open>
  \<open>pattern.finditer(text)\<close>: the spans \<open>(start, end)\<close> of the matches, scanning from
  the left; after a match the scan goes on at its end.  (A greedy pattern of this form
  that matches the empty string at a position has no other match there, and the scan
  moves one character on.)
\<close>

function finditer_from :: "pattern \<Rightarrow> nat option \<Rightarrow> nat \<Rightarrow> ustr \<Rightarrow> (nat \<times> nat) list" where
  "finditer_from p prev pos s =
     (case match_items p prev s of
        Some n \<Rightarrow>
          (if n = 0
           then (pos, pos) #
                  (case s of [] \<Rightarrow> [] | c # cs \<Rightarrow> finditer_from p (Some c) (Suc pos) cs)
           else (pos, pos + n) # finditer_from p (prev_after prev s n) (pos + n) (drop n s))
      | None \<Rightarrow>
          (case s of [] \<Rightarrow> [] | c # cs \<Rightarrow> finditer_from p (Some c) (Suc pos) cs))"
  by pat_completeness auto
termination
proof (relation "measure (\<lambda>(p, prev, pos, s). length s)")
  fix p :: pattern and prev :: "nat option" and pos :: nat and s :: ustr and n :: nat
  assume "match_items p prev s = Some n" "n \<noteq> 0"
  then have "0 < n" "n \<le> length s" using match_items_le by auto
  then show "((p, prev_after prev s n, pos + n, drop n s), (p, prev, pos, s))
               \<in> measure (\<lambda>(p, prev, pos, s). length s)"
    by simp
qed auto

declare finditer_from.simps [simp del]

definition finditer :: "pattern \<Rightarrow> ustr \<Rightarrow> (nat \<times> nat) list" where
  "finditer p s = finditer_from p None 0 s"

text \<open>\<open>re.split(pattern, text)\<close> for a pattern with no group: the pieces between
  the matches.\<close>

fun split_spans :: "ustr \<Rightarrow> nat \<Rightarrow> (nat \<times> nat) list \<Rightarrow> ustr list" where
  "split_spans s cur [] = [drop cur s]"
| "split_spans s cur ((b, e) # spans) = take (b - cur) (drop cur s) # split_spans s e spans"

definition re_split :: "pattern \<Rightarrow> ustr \<Rightarrow> ustr list" where
  "re_split p s = split_spans s 0 (finditer p s)"

section \<open>The pattern table\<close>

definition hebrew :: "nat \<Rightarrow> bool" where
  "hebrew c \<longleftrightarrow> 1488 \<le> c \<and> c \<le> 1514"

definition chr :: "nat \<Rightarrow> nat \<Rightarrow> bool" where
  "chr a c \<longleftrightarrow> c = a"

definition geresh :: "nat \<Rightarrow> bool" where
  "geresh c \<longleftrightarrow> c = 34 \<or> c = 1524 \<or> c = 1523"

text \<open>
  \<open>STRUCTURE_PATTERNS\<close>, in the order of the dictionary.  The Hebrew words are
  perek \<open>1508 1512 1511\<close>, siman \<open>1505 1497 1502 1503\<close>, seif
  \<open>1505 1506 1497 1507\<close>; samekh is \<open>1505\<close>, qof \<open>1511\<close>, the full stop \<open>46\<close>.
\<close>

definition STRUCTURE_PATTERNS :: "(string \<times> pattern) list" where
  "STRUCTURE_PATTERNS =
     [(''perek'',
         [Bol, Rep isspace 0 None, Cls (chr 1508), Cls (chr 1512), Cls (chr 1511),
          Rep isspace 1 None, Rep hebrew 1 (Some 4), Rep isspace 0 None, Eol]),
      (''siman'',
         [Bol, Rep isspace 0 None, Cls (chr 1505), Cls (chr 1497), Cls (chr 1502),
          Cls (chr 1503), Rep isspace 1 None, Rep hebrew 1 (Some 4)]),
      (''seif'',
         [Bol, Rep isspace 0 None, Cls (chr 1505), Cls (chr 1506), Cls (chr 1497),
          Cls (chr 1507), Rep isspace 1 None, Rep hebrew 1 (Some 4)]),
      (''halacha'',
         [Bol, Rep isspace 0 None, Rep (chr 46) 0 (Some 1), Rep hebrew 1 (Some 3),
          Cls (chr 46), Rep isspace 0 None, Eol]),
      (''siman_katan'',
         [Cls (chr 1505), Rep geresh 1 (Some 2), Cls (chr 1511), Rep isspace 1 None,
          Rep hebrew 1 (Some 4)])]"

definition HIERARCHY_LEVELS :: "(string \<times> int) list" where
  "HIERARCHY_LEVELS =
     [(''perek'', 0), (''siman'', 1), (''halacha'', 2), (''seif'', 3),
      (''siman_katan'', 4), (''paragraph'', 5)]"

text \<open>The pattern of \<open>re.split(r"\n\s*\n", text)\<close>.\<close>

definition PARAGRAPH_BREAK :: pattern where
  "PARAGRAPH_BREAK = [Cls (chr 10), Rep isspace 0 None, Cls (chr 10)]"

section \<open>The marker scanner\<close>

record Marker =
  m_type :: string
  m_title :: ustr
  m_position :: nat
  m_level :: int

text \<open>\<open>match.group().strip().rstrip(".").lstrip(".").strip()\<close>\<close>

definition marker_title :: "ustr \<Rightarrow> ustr" where
  "marker_title g = str_strip (lstrip_with (chr 46) (rstrip_with (chr 46) (str_strip g)))"

text \<open>The markers of one pattern; \<open>HIERARCHY_LEVELS[section_type]\<close> raises
  \<open>KeyError\<close> for a type that has no level.\<close>

definition pattern_markers :: "ustr \<Rightarrow> string \<times> pattern \<Rightarrow> error + Marker list" where
  "pattern_markers txt = (\<lambda>(section_type, pat).
     case finditer pat txt of
       [] \<Rightarrow> Inr []
     | spans \<Rightarrow>
         (case map_of HIERARCHY_LEVELS section_type of
            None \<Rightarrow> Inl KeyError
          | Some lvl \<Rightarrow>
              Inr (map (\<lambda>(b, e).
                     \<lparr>m_type = section_type,
                      m_title = marker_title (slice txt (int b) (int e)),
                      m_position = b, m_level = lvl\<rparr>) spans)))"

fun collect :: "('a \<Rightarrow> error + 'b list) \<Rightarrow> 'a list \<Rightarrow> error + 'b list" where
  "collect f [] = Inr []"
| "collect f (x # xs) =
     (case f x of
        Inl e \<Rightarrow> Inl e
      | Inr ys \<Rightarrow> (case collect f xs of Inl e \<Rightarrow> Inl e | Inr zs \<Rightarrow> Inr (ys @ zs)))"

text \<open>The scan of \<open>_detect_sections\<close>: all markers, sorted by position (the sort is
  stable, so markers at one position keep the order of the table).\<close>

definition scan_markers :: "ustr \<Rightarrow> error + Marker list" where
  "scan_markers txt =
     (case collect (pattern_markers txt) STRUCTURE_PATTERNS of
        Inl e \<Rightarrow> Inl e
      | Inr markers \<Rightarrow> Inr (sort_key m_position markers))"

section \<open>The section tree builder\<close>

text \<open>
  The fields of a \<open>Section\<close> other than \<open>subsections\<close>.
\<close>

record SectionData =
  s_section_type :: string
  s_title :: ustr
  s_text :: ustr
  s_char_start :: int
  s_char_end :: int
  s_level :: int

text \<open>
  \<open>_build_section_tree\<close> appends to the \<open>subsections\<close> of section objects that are
  shared between \<open>roots\<close>, \<open>stack\<close> and the \<open>subsections\<close> of their parents.  The
  store holds the objects in the order of their creation: the address of the section of
  marker \<open>i\<close> is \<open>i\<close>, and \<open>subsections\<close> is a list of addresses.  The stack is kept
  with its top (\<open>stack[-1]\<close>) at the head.
\<close>

type_synonym store = "(SectionData \<times> nat list) list"

record builder =
  b_store :: store
  b_roots :: "nat list"
  b_stack :: "nat list"

definition level_at :: "store \<Rightarrow> nat \<Rightarrow> int" where
  "level_at st a = s_level (fst (st ! a))"

text \<open>\<open>while stack and stack[-1].level >= level: stack.pop()\<close>\<close>

definition pop_stack :: "store \<Rightarrow> int \<Rightarrow> nat list \<Rightarrow> nat list" where
  "pop_stack st lvl stack = dropWhile (\<lambda>a. lvl \<le> level_at st a) stack"

text \<open>\<open>stack[-1].subsections.append(section)\<close>, for the section at address \<open>a\<close>.\<close>

definition add_subsection :: "store \<Rightarrow> nat \<Rightarrow> nat \<Rightarrow> store" where
  "add_subsection st parent a = st[parent := (fst (st ! parent), snd (st ! parent) @ [a])]"

definition new_section :: "Marker list \<Rightarrow> ustr \<Rightarrow> nat \<Rightarrow> Marker \<Rightarrow> SectionData" where
  "new_section markers txt i marker =
     (let start = int (m_position marker);
          stop = (if i + 1 < length markers then int (m_position (markers ! (i + 1)))
                  else int (length txt))
      in \<lparr>s_section_type = m_type marker, s_title = m_title marker,
          s_text = str_strip (slice txt start stop),
          s_char_start = start, s_char_end = stop, s_level = m_level marker\<rparr>)"

definition build_step :: "Marker list \<Rightarrow> ustr \<Rightarrow> builder \<Rightarrow> nat \<times> Marker \<Rightarrow> builder" where
  "build_step markers txt b = (\<lambda>(i, marker).
     let section = new_section markers txt i marker;
         a = length (b_store b);
         stack = pop_stack (b_store b) (s_level section) (b_stack b)
     in case stack of
          [] \<Rightarrow> \<lparr>b_store = b_store b @ [(section, [])], b_roots = b_roots b @ [a],
                 b_stack = [a]\<rparr>
        | parent # _ \<Rightarrow>
            \<lparr>b_store = add_subsection (b_store b) parent a @ [(section, [])],
             b_roots = b_roots b, b_stack = a # stack\<rparr>)"

definition build_store :: "Marker list \<Rightarrow> ustr \<Rightarrow> builder" where
  "build_store markers txt =
     foldl (build_step markers txt) \<lparr>b_store = [], b_roots = [], b_stack = []\<rparr>
       (enumerate 0 markers)"

text \<open>
  The forest a list of root objects denotes.  Reading an object follows its
  \<open>subsections\<close>; the first argument bounds the depth read.
\<close>

datatype Section = Section (sdata: SectionData) (subsections: "Section list")

fun section_at :: "nat \<Rightarrow> store \<Rightarrow> nat \<Rightarrow> Section" where
  "section_at 0 st a = Section (fst (st ! a)) []"
| "section_at (Suc fuel) st a = Section (fst (st ! a)) (map (section_at fuel st) (snd (st ! a)))"

definition build_section_tree :: "Marker list \<Rightarrow> ustr \<Rightarrow> Section list" where
  "build_section_tree markers txt =
     (let b = build_store markers txt
      in map (section_at (length (b_store b)) (b_store b)) (b_roots b))"

definition detect_sections :: "ustr \<Rightarrow> error + Section list" where
  "detect_sections txt =
     (case scan_markers txt of
        Inl e \<Rightarrow> Inl e
      | Inr markers \<Rightarrow> if markers = [] then Inr [] else Inr (build_section_tree markers txt))"

section \<open>The chunk assembler\<close>

definition build_section_path :: "ustr \<Rightarrow> SectionData \<Rightarrow> ustr" where
  "build_section_path parent_path section =
     (if parent_path \<noteq> [] then parent_path @ lit '' > '' @ s_title section
      else s_title section)"

subsection \<open>The sliding-window splitter\<close>

text \<open>
  The character offsets of a window are \<open>int(pos / len(words) * len(text))\<close>, computed
  in floating point.  The chunker takes that function as its parameter
  \<open>prop_offset pos (len words) (len text)\<close>.
\<close>

type_synonym offset_fn = "int \<Rightarrow> nat \<Rightarrow> nat \<Rightarrow> int"

definition window_step :: "ChunkingConfig \<Rightarrow> nat" where
  "window_step cfg = nat (max (target_tokens cfg - overlap_tokens cfg) 1)"

lemma window_step_pos: "0 < window_step cfg"
  by (simp add: window_step_def)

text \<open>The \<open>while pos < len(words)\<close> loop.  \<open>chunk_words[0]\<close> raises \<open>IndexError\<close>
  on an empty window.\<close>

function window_loop ::
  "ChunkingConfig \<Rightarrow> offset_fn \<Rightarrow> ustr list \<Rightarrow> ustr \<Rightarrow> BookMeta \<Rightarrow> ustr \<Rightarrow> string \<Rightarrow> int
     \<Rightarrow> nat \<Rightarrow> error + Chunk list" where
  "window_loop cfg prop_offset words txt bk section_path section_type char_offset pos =
     (if pos < length words then
        (let stop = min (int pos + target_tokens cfg) (int (length words));
             chunk_words = slice words (int pos) stop
         in if chunk_words = [] then Inl IndexError
            else
              (let chunk = mk_Chunk (str_join [32] chunk_words) bk section_path section_type
                     (char_offset + prop_offset (int pos) (length words) (length txt))
                     (char_offset + prop_offset stop (length words) (length txt))
                     (int (length chunk_words))
               in if int (length words) \<le> stop then Inr [chunk]
                  else (case window_loop cfg prop_offset words txt bk section_path
                               section_type char_offset (pos + window_step cfg) of
                          Inl e \<Rightarrow> Inl e
                        | Inr chunks \<Rightarrow> Inr (chunk # chunks))))
      else Inr [])"
  by pat_completeness auto
termination
  by (relation "measure (\<lambda>(cfg, po, words, txt, bk, sp, ty, off, pos). length words - pos)")
     (use window_step_pos in \<open>auto simp: diff_less_mono2\<close>)

declare window_loop.simps [simp del]

definition sliding_window_chunks ::
  "ChunkingConfig \<Rightarrow> offset_fn \<Rightarrow> ustr \<Rightarrow> BookMeta \<Rightarrow> ustr \<Rightarrow> string \<Rightarrow> int
     \<Rightarrow> error + Chunk list" where
  "sliding_window_chunks cfg prop_offset txt bk section_path section_type char_offset =
     (let words = str_split txt
      in if words = [] then Inr []
         else if int (length words) \<le> max_tokens cfg
         then Inr [mk_Chunk (str_strip txt) bk section_path section_type
                     char_offset (char_offset + int (length txt)) (int (length words))]
         else window_loop cfg prop_offset words txt bk section_path section_type
                char_offset 0)"

subsection \<open>Sections\<close>

fun chunk_sections ::
  "ChunkingConfig \<Rightarrow> offset_fn \<Rightarrow> Section list \<Rightarrow> BookMeta \<Rightarrow> ustr \<Rightarrow> error + Chunk list"
and chunk_section ::
  "ChunkingConfig \<Rightarrow> offset_fn \<Rightarrow> Section \<Rightarrow> BookMeta \<Rightarrow> ustr \<Rightarrow> error + Chunk list"
where
  "chunk_sections cfg prop_offset [] bk parent_path = Inr []"
| "chunk_sections cfg prop_offset (section # sections) bk parent_path =
     (case chunk_section cfg prop_offset section bk parent_path of
        Inl e \<Rightarrow> Inl e
      | Inr chunks \<Rightarrow>
          (case chunk_sections cfg prop_offset sections bk parent_path of
             Inl e \<Rightarrow> Inl e
           | Inr others \<Rightarrow> Inr (chunks @ others)))"
| "chunk_section cfg prop_offset (Section d subs) bk parent_path =
     (let section_path = build_section_path parent_path d
      in if subs \<noteq> [] then chunk_sections cfg prop_offset subs bk section_path
         else
           (let section_text = s_text d;
                token_count = estimate_tokens section_text
            in if int token_count \<le> max_tokens cfg
               then (if str_strip section_text \<noteq> []
                     then Inr [mk_Chunk section_text bk section_path (s_section_type d)
                                 (s_char_start d) (s_char_end d) (int token_count)]
                     else Inr [])
               else sliding_window_chunks cfg prop_offset section_text bk section_path
                      (s_section_type d) (s_char_start d)))"

subsection \<open>Paragraphs\<close>

text \<open>\<open>para_start = text.find(para, current_pos)\<close>, and \<open>current_pos\<close> when the
  paragraph is not found.\<close>

definition para_start_of :: "ustr \<Rightarrow> ustr \<Rightarrow> nat \<Rightarrow> nat" where
  "para_start_of s para current_pos =
     (let found = str_find s para current_pos
      in if found = - 1 then current_pos else nat found)"

fun paragraph_loop ::
  "ChunkingConfig \<Rightarrow> offset_fn \<Rightarrow> ustr \<Rightarrow> BookMeta \<Rightarrow> ustr \<Rightarrow> int \<Rightarrow> nat \<Rightarrow> ustr list
     \<Rightarrow> error + Chunk list" where
  "paragraph_loop cfg prop_offset txt bk section_path char_offset current_pos [] = Inr []"
| "paragraph_loop cfg prop_offset txt bk section_path char_offset current_pos (para # paras) =
     (let para_stripped = str_strip para
      in if para_stripped = []
         then paragraph_loop cfg prop_offset txt bk section_path char_offset
                (current_pos + length para + 1) paras
         else
           (let para_start = para_start_of txt para current_pos;
                para_end = para_start + length para;
                token_count = estimate_tokens para_stripped
            in case (if max_tokens cfg < int token_count
                     then sliding_window_chunks cfg prop_offset para_stripped bk section_path
                            ''paragraph'' (char_offset + int para_start)
                     else Inr [mk_Chunk para_stripped bk section_path ''paragraph''
                                 (char_offset + int para_start) (char_offset + int para_end)
                                 (int token_count)]) of
                 Inl e \<Rightarrow> Inl e
               | Inr chunks \<Rightarrow>
                   (case paragraph_loop cfg prop_offset txt bk section_path char_offset
                           para_end paras of
                      Inl e \<Rightarrow> Inl e
                    | Inr others \<Rightarrow> Inr (chunks @ others))))"

definition chunk_by_paragraphs ::
  "ChunkingConfig \<Rightarrow> offset_fn \<Rightarrow> ustr \<Rightarrow> BookMeta \<Rightarrow> ustr \<Rightarrow> int \<Rightarrow> error + Chunk list" where
  "chunk_by_paragraphs cfg prop_offset txt bk section_path char_offset =
     paragraph_loop cfg prop_offset txt bk section_path char_offset 0
       (re_split PARAGRAPH_BREAK txt)"

section \<open>The small-chunk merger\<close>

text \<open>
  \<open>_merge_small_chunks\<close>: \<open>merged\<close> starts as the first chunk; each later chunk either
  replaces \<open>merged[-1]\<close> by the combination or is appended.
\<close>

definition merge_two :: "Chunk \<Rightarrow> Chunk \<Rightarrow> Chunk" where
  "merge_two prev chunk =
     \<lparr>c_text = c_text prev @ [10, 10] @ c_text chunk,
      c_book_id = c_book_id prev, c_book_title = c_book_title prev,
      c_book_author = c_book_author prev, c_section_path = c_section_path prev,
      c_section_type = c_section_type prev,
      c_chunk_index = 0, c_total_chunks_in_section = 1,
      c_language = c_language prev,
      c_char_start = c_char_start prev, c_char_end = c_char_end chunk,
      c_token_count = c_token_count prev + c_token_count chunk\<rparr>"

definition merge_step :: "ChunkingConfig \<Rightarrow> Chunk list \<Rightarrow> Chunk \<Rightarrow> Chunk list" where
  "merge_step cfg merged chunk =
     (let prev = last merged;
          combined_tokens = c_token_count prev + c_token_count chunk
      in if c_token_count prev < min_tokens cfg
            \<and> combined_tokens \<le> max_tokens cfg
            \<and> c_section_path prev = c_section_path chunk
         then butlast merged @ [merge_two prev chunk]
         else merged @ [chunk])"

definition merge_small_chunks :: "ChunkingConfig \<Rightarrow> Chunk list \<Rightarrow> Chunk list" where
  "merge_small_chunks cfg chunks =
     (case chunks of
        [] \<Rightarrow> []
      | first # rest \<Rightarrow> foldl (merge_step cfg) [first] rest)"

section \<open>Words of a text\<close>

lemma split_acc_app_space:
  "isspace c \<Longrightarrow> split_acc w (a @ c # b) = split_acc w a @ split_acc [] b"
  by (induction a arbitrary: w) auto

lemma str_split_app_space:
  "isspace c \<Longrightarrow> str_split (a @ c # b) = str_split a @ str_split b"
  by (simp add: str_split_def split_acc_app_space)

lemma str_split_space_front: "isspace c \<Longrightarrow> str_split (c # b) = str_split b"
  by (simp add: str_split_def)

lemma isspace_nl: "isspace 10"
  by (simp add: isspace_def)

lemma str_split_blank_line:
  "str_split (a @ 10 # 10 # b) = str_split a @ str_split b"
  by (simp add: str_split_app_space str_split_space_front isspace_nl)

section \<open>The merger keeps the words\<close>

definition chunk_words :: "Chunk list \<Rightarrow> ustr list" where
  "chunk_words cs = concat (map (\<lambda>c. str_split (c_text c)) cs)"

lemma merge_step_nonempty: "merged \<noteq> [] \<Longrightarrow> merge_step cfg merged c \<noteq> []"
  by (simp add: merge_step_def Let_def)

lemma chunk_words_merge_step:
  assumes "merged \<noteq> []"
  shows "chunk_words (merge_step cfg merged c) = chunk_words merged @ str_split (c_text c)"
proof -
  have m: "merged = butlast merged @ [last merged]"
    using assms by simp
  have "chunk_words merged
          = chunk_words (butlast merged) @ str_split (c_text (last merged))"
    by (subst m) (simp add: chunk_words_def)
  then show ?thesis
    by (simp add: merge_step_def Let_def chunk_words_def merge_two_def
        str_split_blank_line)
qed

lemma chunk_words_foldl:
  "merged \<noteq> [] \<Longrightarrow>
   chunk_words (foldl (merge_step cfg) merged cs) = chunk_words merged @ chunk_words cs"
proof (induction cs arbitrary: merged)
  case Nil
  then show ?case by (simp add: chunk_words_def)
next
  case (Cons c cs)
  have "chunk_words (foldl (merge_step cfg) (merge_step cfg merged c) cs)
          = chunk_words (merge_step cfg merged c) @ chunk_words cs"
    using Cons.IH [OF merge_step_nonempty [OF Cons.prems]] .
  then show ?case
    using Cons.prems by (simp add: chunk_words_merge_step) (simp add: chunk_words_def)
qed

text \<open>
  C10.  The merge pass never loses or reorders content: the words of the chunks it
  returns, concatenated in order, are the words of the chunks it was given,
  concatenated in order.
\<close>

theorem merge_small_chunks_keeps_words:
  "concat (map (\<lambda>c. str_split (c_text c)) (merge_small_chunks cfg chunks))
     = concat (map (\<lambda>c. str_split (c_text c)) chunks)"
proof (cases chunks)
  case Nil
  then show ?thesis by (simp add: merge_small_chunks_def)
next
  case (Cons first rest)
  have "chunk_words (foldl (merge_step cfg) [first] rest)
          = chunk_words [first] @ chunk_words rest"
    by (rule chunk_words_foldl) simp
  then show ?thesis
    using Cons by (simp add: merge_small_chunks_def chunk_words_def)
qed

section \<open>The merger is idempotent\<close>


definition mergeable :: "ChunkingConfig \<Rightarrow> Chunk \<Rightarrow> Chunk \<Rightarrow> bool" where
  "mergeable cfg prev chunk \<longleftrightarrow>
     c_token_count prev < min_tokens cfg
     \<and> c_token_count prev + c_token_count chunk \<le> max_tokens cfg
     \<and> c_section_path prev = c_section_path chunk"

fun no_merge :: "ChunkingConfig \<Rightarrow> Chunk list \<Rightarrow> bool" where
  "no_merge cfg (a # b # cs) = (\<not> mergeable cfg a b \<and> no_merge cfg (b # cs))"
| "no_merge cfg cs = True"

fun merge_from :: "ChunkingConfig \<Rightarrow> Chunk \<Rightarrow> Chunk list \<Rightarrow> Chunk list" where
  "merge_from cfg prev [] = [prev]"
| "merge_from cfg prev (c # cs) =
     (if mergeable cfg prev c then merge_from cfg (merge_two prev c) cs
      else prev # merge_from cfg c cs)"

lemma merge_step_single:
  "merge_step cfg [prev] c = (if mergeable cfg prev c then [merge_two prev c] else [prev, c])"
  by (simp add: merge_step_def mergeable_def Let_def)

lemma merge_step_butlast:
  "merged \<noteq> [] \<Longrightarrow> merge_step cfg merged c = butlast merged @ merge_step cfg [last merged] c"
  by (simp add: merge_step_def Let_def)

lemma foldl_merge_step_butlast:
  "merged \<noteq> [] \<Longrightarrow>
   foldl (merge_step cfg) merged cs = butlast merged @ foldl (merge_step cfg) [last merged] cs"
proof (induction cs arbitrary: merged)
  case Nil
  then show ?case by simp
next
  case (Cons c cs)
  let ?m = "merge_step cfg [last merged] c"
  have ne: "?m \<noteq> []" by (simp add: merge_step_nonempty)
  have "foldl (merge_step cfg) merged (c # cs)
          = foldl (merge_step cfg) (butlast merged @ ?m) cs"
    using merge_step_butlast [OF Cons.prems] by simp
  also have "\<dots> = butlast (butlast merged @ ?m) @ foldl (merge_step cfg) [last (butlast merged @ ?m)] cs"
    by (rule Cons.IH) (simp add: ne)
  also have "\<dots> = butlast merged @ butlast ?m @ foldl (merge_step cfg) [last ?m] cs"
    using ne by (simp add: butlast_append)
  also have "\<dots> = butlast merged @ foldl (merge_step cfg) ?m cs"
    using Cons.IH [OF ne] by simp
  finally show ?case by simp
qed

lemma foldl_merge_from: "foldl (merge_step cfg) [a] cs = merge_from cfg a cs"
proof (induction cs arbitrary: a)
  case Nil
  then show ?case by simp
next
  case (Cons c cs)
  show ?case
  proof (cases "mergeable cfg a c")
    case True
    then show ?thesis by (simp add: merge_step_single Cons.IH)
  next
    case False
    have "foldl (merge_step cfg) [a, c] cs = butlast [a, c] @ foldl (merge_step cfg) [last [a, c]] cs"
      by (rule foldl_merge_step_butlast) simp
    then show ?thesis using False by (simp add: merge_step_single Cons.IH)
  qed
qed

lemma merge_small_chunks_Cons: "merge_small_chunks cfg (a # cs) = merge_from cfg a cs"
  by (simp add: merge_small_chunks_def foldl_merge_from)

lemma merge_from_no_merge: "no_merge cfg (a # cs) \<Longrightarrow> merge_from cfg a cs = a # cs"
  by (induction cs arbitrary: a) auto

lemma merge_from_head:
  "\<forall>c\<in>set cs. 0 \<le> c_token_count c \<Longrightarrow>
   \<exists>h t. merge_from cfg a cs = h # t \<and> c_section_path h = c_section_path a
       \<and> c_token_count a \<le> c_token_count h"
proof (induction cs arbitrary: a)
  case Nil
  then show ?case by simp
next
  case (Cons c cs)
  show ?case
  proof (cases "mergeable cfg a c")
    case True
    from Cons.prems have "\<forall>c\<in>set cs. 0 \<le> c_token_count c" by simp
    from Cons.IH [OF this, of "merge_two a c"] obtain h t where
      "merge_from cfg (merge_two a c) cs = h # t"
      "c_section_path h = c_section_path (merge_two a c)"
      "c_token_count (merge_two a c) \<le> c_token_count h" by blast
    with True Cons.prems show ?thesis by (simp add: merge_two_def)
  next
    case False
    then show ?thesis by simp
  qed
qed

lemma no_merge_merge_from:
  "\<forall>c\<in>set cs. 0 \<le> c_token_count c \<Longrightarrow> no_merge cfg (merge_from cfg a cs)"
proof (induction cs arbitrary: a)
  case Nil
  then show ?case by simp
next
  case (Cons c cs)
  from Cons.prems have nn: "\<forall>c\<in>set cs. 0 \<le> c_token_count c" by simp
  show ?case
  proof (cases "mergeable cfg a c")
    case True
    then show ?thesis using Cons.IH [OF nn] by simp
  next
    case False
    from merge_from_head [OF nn, of cfg c] obtain h t where
      ht: "merge_from cfg c cs = h # t" "c_section_path h = c_section_path c"
      "c_token_count c \<le> c_token_count h" by blast
    have "\<not> mergeable cfg a h"
      using False ht by (auto simp: mergeable_def)
    moreover have "no_merge cfg (h # t)"
      using Cons.IH [OF nn, of c] ht by simp
    ultimately show ?thesis using False ht by simp
  qed
qed

text \<open>On a chunk list whose token counts are not negative, a second merge changes
  nothing, and no adjacent pair of the output can be merged.\<close>

lemma merge_idempotent_nonneg:
  assumes "\<forall>c\<in>set chunks. 0 \<le> c_token_count c"
  shows "merge_small_chunks cfg (merge_small_chunks cfg chunks) = merge_small_chunks cfg chunks
         \<and> no_merge cfg (merge_small_chunks cfg chunks)"
proof (cases chunks)
  case Nil
  then show ?thesis by (simp add: merge_small_chunks_def)
next
  case (Cons a cs)
  with assms have nn: "\<forall>c\<in>set cs. 0 \<le> c_token_count c" by simp
  have nm: "no_merge cfg (merge_from cfg a cs)" by (rule no_merge_merge_from [OF nn])
  obtain h t where ht: "merge_from cfg a cs = h # t"
    using merge_from_head [OF nn] by blast
  have "merge_small_chunks cfg (h # t) = h # t"
    using nm ht by (simp add: merge_small_chunks_Cons merge_from_no_merge)
  then show ?thesis using nm ht Cons by (simp add: merge_small_chunks_Cons)
qed

text \<open>A bare chunk of a given token count.\<close>

definition bare_chunk :: "int \<Rightarrow> Chunk" where
  "bare_chunk n =
     mk_Chunk [] \<lparr>book_id = [], book_title = [], book_author = [], language = []\<rparr>
       [] ''paragraph'' 0 0 n"

section \<open>The index assigner\<close>


text \<open>
  \<open>_assign_indices\<close> mutates the chunk objects of the list in place.  The list is
  the store: the address of a chunk is its position.  \<open>groups\<close> is a dictionary in
  insertion order from a section path to the addresses of its chunks, and
  \<open>group_add\<close> is \<open>groups.setdefault(path, []).append(chunk)\<close>.
\<close>

fun group_add :: "(ustr \<times> nat list) list \<Rightarrow> ustr \<Rightarrow> nat \<Rightarrow> (ustr \<times> nat list) list" where
  "group_add [] p a = [(p, [a])]"
| "group_add ((q, as) # gs) p a =
     (if q = p then (q, as @ [a]) # gs else (q, as) # group_add gs p a)"

definition build_groups :: "Chunk list \<Rightarrow> (ustr \<times> nat list) list" where
  "build_groups chunks =
     foldl (\<lambda>groups (a, chunk). group_add groups (c_section_path chunk) a) []
       (enumerate 0 chunks)"

text \<open>\<open>chunk.chunk_index = i; chunk.total_chunks_in_section = total\<close> on the chunk
  object at address \<open>a\<close>.\<close>

definition set_index :: "nat \<Rightarrow> Chunk list \<Rightarrow> nat \<times> nat \<Rightarrow> Chunk list" where
  "set_index t st = (\<lambda>(i, a).
     st[a := (st ! a)\<lparr>c_chunk_index := int i, c_total_chunks_in_section := int t\<rparr>])"

definition assign_group :: "Chunk list \<Rightarrow> nat list \<Rightarrow> Chunk list" where
  "assign_group chunks path_chunks =
     foldl (set_index (length path_chunks)) chunks (enumerate 0 path_chunks)"

definition assign_indices :: "Chunk list \<Rightarrow> Chunk list" where
  "assign_indices chunks =
     foldl (\<lambda>st (p, path_chunks). assign_group st path_chunks) chunks (build_groups chunks)"


subsection \<open>Groups\<close>

definition members :: "Chunk list \<Rightarrow> ustr \<Rightarrow> nat \<Rightarrow> nat list" where
  "members cs p m = filter (\<lambda>k. c_section_path (cs ! k) = p) [0 ..< m]"

lemma map_of_group_add:
  "map_of (group_add gs p a) =
     (map_of gs)(p \<mapsto> (case map_of gs p of None \<Rightarrow> [a] | Some as \<Rightarrow> as @ [a]))"
  by (induction gs p a rule: group_add.induct) (auto simp: fun_eq_iff)

lemma keys_group_add:
  "map fst (group_add gs p a) = (if p \<in> set (map fst gs) then map fst gs else map fst gs @ [p])"
  by (induction gs p a rule: group_add.induct) auto

lemma distinct_group_add: "distinct (map fst gs) \<Longrightarrow> distinct (map fst (group_add gs p a))"
  by (simp add: keys_group_add)

lemma members_snoc:
  "members (xs @ [x]) p (Suc (length xs)) =
     members xs p (length xs) @ (if c_section_path x = p then [length xs] else [])"
proof -
  have "filter (\<lambda>k. c_section_path ((xs @ [x]) ! k) = p) [0 ..< length xs]
          = filter (\<lambda>k. c_section_path (xs ! k) = p) [0 ..< length xs]"
    by (rule filter_cong) (auto simp: nth_append)
  then show ?thesis by (simp add: members_def)
qed

lemma build_groups_snoc:
  "build_groups (xs @ [x]) = group_add (build_groups xs) (c_section_path x) (length xs)"
  by (simp add: build_groups_def enumerate_append_eq)

lemma build_groups_inv:
  "distinct (map fst (build_groups cs)) \<and>
   (\<forall>p. map_of (build_groups cs) p =
      (if members cs p (length cs) = [] then None else Some (members cs p (length cs))))"
proof (induction cs rule: rev_induct)
  case Nil
  then show ?case by (simp add: build_groups_def members_def)
next
  case (snoc x xs)
  then show ?case
    by (auto simp: build_groups_snoc distinct_group_add map_of_group_add members_snoc
             simp del: upt_Suc)
qed

lemma build_groups_members:
  assumes "(p, as) \<in> set (build_groups cs)"
  shows "as = members cs p (length cs)"
proof -
  have d: "distinct (map fst (build_groups cs))"
    using build_groups_inv [of cs] by blast
  have "map_of (build_groups cs) p = Some as"
    using assms map_of_eq_Some_iff [OF d] by blast
  moreover have "map_of (build_groups cs) p =
      (if members cs p (length cs) = [] then None else Some (members cs p (length cs)))"
    using build_groups_inv [of cs] by blast
  ultimately show ?thesis
    by (simp split: if_splits)
qed

lemma build_groups_has:
  assumes "k < length cs"
  shows "c_section_path (cs ! k) \<in> fst ` set (build_groups cs)"
proof -
  have "k \<in> set (members cs (c_section_path (cs ! k)) (length cs))"
    using assms by (simp add: members_def)
  then have "map_of (build_groups cs) (c_section_path (cs ! k)) \<noteq> None"
    using build_groups_inv [of cs] by auto
  then show ?thesis by (metis map_of_eq_None_iff)
qed

subsection \<open>One group\<close>

lemma assign_group_alt:
  "assign_group chunks as = foldl (set_index (length as)) chunks (enumerate 0 as)"
  by (simp add: assign_group_def)

lemma foldl_set_index:
  assumes "distinct as" "\<forall>a\<in>set as. a < length st"
  shows "length (foldl (set_index t) st (enumerate j as)) = length st
     \<and> (\<forall>i<length as. foldl (set_index t) st (enumerate j as) ! (as ! i)
           = (st ! (as ! i))\<lparr>c_chunk_index := int (j + i),
                c_total_chunks_in_section := int t\<rparr>)
     \<and> (\<forall>k. k \<notin> set as \<longrightarrow> foldl (set_index t) st (enumerate j as) ! k = st ! k)"
  using assms
proof (induction as arbitrary: j st)
  case Nil
  then show ?case by simp
next
  case (Cons a as)
  let ?st = "set_index t st (j, a)"
  have len: "length ?st = length st" by (simp add: set_index_def)
  have d: "distinct as" and b: "\<forall>x\<in>set as. x < length ?st" and na: "a \<notin> set as"
    using Cons.prems len by auto
  note IH = Cons.IH [OF d b, of "Suc j"]
  have f: "foldl (set_index t) st (enumerate j (a # as))
             = foldl (set_index t) ?st (enumerate (Suc j) as)"
    by simp
  have at_a: "?st ! a = (st ! a)\<lparr>c_chunk_index := int j, c_total_chunks_in_section := int t\<rparr>"
    using Cons.prems by (simp add: set_index_def)
  have other: "\<And>k. k \<noteq> a \<Longrightarrow> ?st ! k = st ! k"
    by (simp add: set_index_def)
  show ?case
  proof (intro conjI allI impI)
    show "length (foldl (set_index t) st (enumerate j (a # as))) = length st"
      using IH len by (simp del: foldl_Cons enumerate_simps add: f)
  next
    fix i assume i: "i < length (a # as)"
    show "foldl (set_index t) st (enumerate j (a # as)) ! ((a # as) ! i)
            = (st ! ((a # as) ! i))\<lparr>c_chunk_index := int (j + i),
                 c_total_chunks_in_section := int t\<rparr>"
    proof (cases i)
      case 0
      then show ?thesis using IH na at_a by (simp del: foldl_Cons enumerate_simps add: f)
    next
      case (Suc i')
      then have i': "i' < length as" using i by simp
      then have "as ! i' \<noteq> a" using na by (metis nth_mem)
      then show ?thesis
        using IH i' Suc other by (simp del: foldl_Cons enumerate_simps add: f)
    qed
  next
    fix k assume "k \<notin> set (a # as)"
    then show "foldl (set_index t) st (enumerate j (a # as)) ! k = st ! k"
      using IH other by (simp del: foldl_Cons enumerate_simps add: f)
  qed
qed

lemma members_props:
  "distinct (members cs p m)" "\<forall>a\<in>set (members cs p m). a < m"
  by (simp_all add: members_def)

lemma members_nth:
  assumes "k < m" "c_section_path (cs ! k) = p"
  shows "length (members cs p k) < length (members cs p m)
       \<and> members cs p m ! length (members cs p k) = k"
proof -
  have "[0 ..< m] = [0 ..< k] @ k # [Suc k ..< m]"
    using assms(1) by (metis less_imp_le_nat upt_add_eq_append upt_conv_Cons le0 le_add_diff_inverse)
  then have "members cs p m = members cs p k @ k # filter (\<lambda>k. c_section_path (cs ! k) = p) [Suc k ..< m]"
    using assms(2) by (simp add: members_def)
  then show ?thesis by (simp add: nth_append)
qed

lemma assign_group_members:
  assumes "length st = n"
  shows "length (assign_group st (members cs p n)) = n
     \<and> (\<forall>k<n. assign_group st (members cs p n) ! k =
          (if c_section_path (cs ! k) = p
           then (st ! k)\<lparr>c_chunk_index := int (length (members cs p k)),
                  c_total_chunks_in_section := int (length (members cs p n))\<rparr>
           else st ! k))"
proof -
  let ?as = "members cs p n"
  have b: "\<forall>a\<in>set ?as. a < length st"
    using members_props(2) [of cs p n] assms by simp
  note F = foldl_set_index [OF members_props(1) b, of "length ?as" 0]
  show ?thesis
  proof (intro conjI allI impI)
    show "length (assign_group st ?as) = n"
      using F assms by (simp add: assign_group_alt)
  next
    fix k assume k: "k < n"
    show "assign_group st ?as ! k =
          (if c_section_path (cs ! k) = p
           then (st ! k)\<lparr>c_chunk_index := int (length (members cs p k)),
                  c_total_chunks_in_section := int (length ?as)\<rparr>
           else st ! k)"
    proof (cases "c_section_path (cs ! k) = p")
      case True
      from members_nth [OF k True] have
        i: "length (members cs p k) < length ?as" and e: "?as ! length (members cs p k) = k"
        by simp_all
      from F have "foldl (set_index (length ?as)) st (enumerate 0 ?as) ! (?as ! length (members cs p k))
           = (st ! (?as ! length (members cs p k)))\<lparr>c_chunk_index := int (0 + length (members cs p k)),
                c_total_chunks_in_section := int (length ?as)\<rparr>"
        using i by blast
      then show ?thesis using True e by (simp add: assign_group_alt)
    next
      case False
      then have "k \<notin> set ?as" by (simp add: members_def)
      then show ?thesis using F False by (simp add: assign_group_alt)
    qed
  qed
qed

subsection \<open>All groups\<close>

lemma assign_all_groups:
  assumes "distinct (map fst gs)" "\<forall>(p, as)\<in>set gs. as = members cs p n" "length st = n"
  shows "length (foldl (\<lambda>st (p, path_chunks). assign_group st path_chunks) st gs) = n
     \<and> (\<forall>k<n. foldl (\<lambda>st (p, path_chunks). assign_group st path_chunks) st gs ! k =
          (if c_section_path (cs ! k) \<in> fst ` set gs
           then (st ! k)\<lparr>c_chunk_index := int (length (members cs (c_section_path (cs ! k)) k)),
                  c_total_chunks_in_section := int (length (members cs (c_section_path (cs ! k)) n))\<rparr>
           else st ! k))"
  using assms
proof (induction gs arbitrary: st)
  case Nil
  then show ?case by simp
next
  case (Cons g gs)
  obtain p as where g: "g = (p, as)" by (cases g)
  have as: "as = members cs p n" using Cons.prems(2) g by simp
  let ?st = "assign_group st (members cs p n)"
  note A = assign_group_members [OF Cons.prems(3), of cs p]
  have len: "length ?st = n" using A by simp
  have d: "distinct (map fst gs)" and pn: "p \<notin> fst ` set gs"
    using Cons.prems(1) g by auto
  have m: "\<forall>(p, as)\<in>set gs. as = members cs p n" using Cons.prems(2) by simp
  note IH = Cons.IH [OF d m len]
  have f: "foldl (\<lambda>st (p, path_chunks). assign_group st path_chunks) st (g # gs)
         = foldl (\<lambda>st (p, path_chunks). assign_group st path_chunks) ?st gs"
    by (simp add: g as)
  show ?case
  proof (intro conjI allI impI)
    show "length (foldl (\<lambda>st (p, path_chunks). assign_group st path_chunks) st (g # gs)) = n"
      using IH by (simp only: f)
  next
    fix k assume k: "k < n"
    show "foldl (\<lambda>st (p, path_chunks). assign_group st path_chunks) st (g # gs) ! k =
          (if c_section_path (cs ! k) \<in> fst ` set (g # gs)
           then (st ! k)\<lparr>c_chunk_index := int (length (members cs (c_section_path (cs ! k)) k)),
                  c_total_chunks_in_section := int (length (members cs (c_section_path (cs ! k)) n))\<rparr>
           else st ! k)"
    proof (cases "c_section_path (cs ! k) = p")
      case True
      then have "c_section_path (cs ! k) \<notin> fst ` set gs" using pn by simp
      then show ?thesis using IH A k True by (simp only: f) (simp add: g)
    next
      case False
      then have o: "?st ! k = st ! k" using A k by simp
      show ?thesis 
      proof (cases "c_section_path (cs ! k) \<in> fst ` set gs")
        case True
        then show ?thesis using IH k o False by (simp only: f) (simp add: g)
      next
        case F2: False
        then show ?thesis using IH k o False by (simp only: f) (simp add: g)
      qed
    qed
  qed
qed

lemma assign_indices_nth:
  "length (assign_indices cs) = length cs
   \<and> (\<forall>k<length cs. assign_indices cs ! k =
        (cs ! k)\<lparr>c_chunk_index := int (length (members cs (c_section_path (cs ! k)) k)),
              c_total_chunks_in_section :=
                 int (length (members cs (c_section_path (cs ! k)) (length cs)))\<rparr>)"
proof -
  have d: "distinct (map fst (build_groups cs))" using build_groups_inv by blast
  have m: "\<forall>(p, as)\<in>set (build_groups cs). as = members cs p (length cs)"
    using build_groups_members by blast
  note A = assign_all_groups [OF d m refl]
  show ?thesis
    using A build_groups_has [of _ cs] by (simp add: assign_indices_def)
qed


subsection \<open>The index contract\<close>

definition group_of :: "Chunk list \<Rightarrow> ustr \<Rightarrow> Chunk list" where
  "group_of chunks p = filter (\<lambda>c. c_section_path c = p) chunks"

definition clear_index :: "Chunk \<Rightarrow> Chunk" where
  "clear_index c = c\<lparr>c_chunk_index := 0, c_total_chunks_in_section := 0\<rparr>"

lemma assign_indices_path:
  "k < length cs \<Longrightarrow> c_section_path (assign_indices cs ! k) = c_section_path (cs ! k)"
  using assign_indices_nth [of cs] by simp

lemma group_of_take_Suc:
  "m < length rs \<Longrightarrow>
   group_of (take (Suc m) rs) p =
     group_of (take m rs) p @ (if c_section_path (rs ! m) = p then [rs ! m] else [])"
  by (simp add: group_of_def take_Suc_conv_app_nth)

lemma group_size_members:
  "m \<le> length cs \<Longrightarrow>
   length (group_of (take m (assign_indices cs)) p) = length (members cs p m)"
proof (induction m)
  case 0
  then show ?case by (simp add: group_of_def members_def)
next
  case (Suc m)
  then have m: "m < length (assign_indices cs)" "m < length cs"
    using assign_indices_nth [of cs] by simp_all
  show ?case
    using Suc m assign_indices_path [OF m(2)]
    by (simp add: group_of_take_Suc) (simp add: members_def)
qed

lemma group_indices_take:
  "m \<le> length cs \<Longrightarrow>
   map c_chunk_index (group_of (take m (assign_indices cs)) p)
     = map int [0 ..< length (group_of (take m (assign_indices cs)) p)]"
proof (induction m)
  case 0
  then show ?case by (simp add: group_of_def)
next
  case (Suc m)
  then have m: "m < length (assign_indices cs)" "m < length cs" "m \<le> length cs"
    using assign_indices_nth [of cs] by simp_all
  show ?case
  proof (cases "c_section_path (assign_indices cs ! m) = p")
    case True
    then have p: "c_section_path (cs ! m) = p"
      using assign_indices_path [OF m(2)] by simp
    have "c_chunk_index (assign_indices cs ! m) = int (length (members cs p m))"
      using assign_indices_nth [of cs] m(2) p by simp
    then have "c_chunk_index (assign_indices cs ! m)
                 = int (length (group_of (take m (assign_indices cs)) p))"
      using group_size_members [OF m(3)] by simp
    then show ?thesis
      using True Suc.IH [OF m(3)] m(1) by (simp add: group_of_take_Suc)
  next
    case False
    then show ?thesis
      using Suc.IH [OF m(3)] m(1) by (simp add: group_of_take_Suc)
  qed
qed

text \<open>
  C9.  After the index assigner has run, the list holds the same chunks in the same
  order (only the two index fields differ); for every section path the chunk indices of
  its group, read in list order, are \<open>0, 1, ..., size - 1\<close>; and every chunk's
  \<open>total_chunks_in_section\<close> is the size of its group.
\<close>

theorem assign_indices_contract:
  "map clear_index (assign_indices chunks) = map clear_index chunks
   \<and> (\<forall>p. map c_chunk_index (group_of (assign_indices chunks) p)
            = map int [0 ..< length (group_of (assign_indices chunks) p)])
   \<and> (\<forall>c\<in>set (assign_indices chunks).
         c_total_chunks_in_section c
           = int (length (group_of (assign_indices chunks) (c_section_path c))))"
proof (intro conjI allI ballI)
  show "map clear_index (assign_indices chunks) = map clear_index chunks"
    using assign_indices_nth [of chunks]
    by (auto simp: list_eq_iff_nth_eq clear_index_def)
next
  fix p
  have "take (length chunks) (assign_indices chunks) = assign_indices chunks"
    using assign_indices_nth [of chunks] by simp
  then show "map c_chunk_index (group_of (assign_indices chunks) p)
            = map int [0 ..< length (group_of (assign_indices chunks) p)]"
    using group_indices_take [of "length chunks" chunks p] by simp
next
  fix c assume "c \<in> set (assign_indices chunks)"
  then obtain k where k: "k < length chunks" "c = assign_indices chunks ! k"
    using assign_indices_nth [of chunks] by (metis in_set_conv_nth)
  have t: "take (length chunks) (assign_indices chunks) = assign_indices chunks"
    using assign_indices_nth [of chunks] by simp
  have "c_total_chunks_in_section c
          = int (length (members chunks (c_section_path (chunks ! k)) (length chunks)))"
    using assign_indices_nth [of chunks] k by simp
  also have "\<dots> = int (length (group_of (assign_indices chunks) (c_section_path (chunks ! k))))"
    using group_size_members [of "length chunks" chunks "c_section_path (chunks ! k)"] t by simp
  finally show "c_total_chunks_in_section c
           = int (length (group_of (assign_indices chunks) (c_section_path c)))"
    using assign_indices_path [OF k(1)] k(2) by simp
qed

text \<open>A chunk at a given section path.\<close>

definition at_path :: "ustr \<Rightarrow> Chunk" where
  "at_path p = (bare_chunk 1)\<lparr>c_section_path := p\<rparr>"

theorem assign_indices_contract_witness:
  "map (\<lambda>c. (c_chunk_index c, c_total_chunks_in_section c))
     (assign_indices [at_path [1], at_path [2], at_path [1]]) = [(0, 2), (0, 1), (1, 2)]
   \<and> map clear_index (assign_indices [at_path [1], at_path [2], at_path [1]])
       = map clear_index [at_path [1], at_path [2], at_path [1]]
   \<and> map c_chunk_index (group_of (assign_indices [at_path [1], at_path [2], at_path [1]]) [1])
       = [0, 1]"
  using assign_indices_contract [of "[at_path [1], at_path [2], at_path [1]]"]
  by (simp add: assign_indices_def build_groups_def assign_group_def set_index_def
      at_path_def bare_chunk_def mk_Chunk_def group_of_def clear_index_def)

section \<open>The chunker\<close>

record ParsedBook =
  pb_title :: ustr
  pb_author :: ustr
  pb_language :: ustr
  pb_raw_text :: ustr

text \<open>
  \<open>HalachicChunker.chunk\<close>.  \<open>uuid\<close> is the string \<open>str(uuid4())\<close> would return;
  it is used when no book id (or an empty one) is given.
\<close>

definition chunk ::
  "ChunkingConfig \<Rightarrow> offset_fn \<Rightarrow> ustr \<Rightarrow> ParsedBook \<Rightarrow> ustr option \<Rightarrow> error + Chunk list" where
  "chunk cfg prop_offset uuid parsed_book given_id =
     (let effective_book_id =
            (case given_id of None \<Rightarrow> uuid | Some b \<Rightarrow> if b = [] then uuid else b);
          txt = pb_raw_text parsed_book;
          bk = \<lparr>book_id = effective_book_id, book_title = pb_title parsed_book,
                book_author = pb_author parsed_book, language = pb_language parsed_book\<rparr>
      in if str_strip txt = [] then Inr []
         else
           (case detect_sections txt of
              Inl e \<Rightarrow> Inl e
            | Inr sections \<Rightarrow>
                (case (if sections \<noteq> []
                       then chunk_sections cfg prop_offset sections bk []
                       else chunk_by_paragraphs cfg prop_offset txt bk [] 0) of
                   Inl e \<Rightarrow> Inl e
                 | Inr chunks \<Rightarrow> Inr (assign_indices (merge_small_chunks cfg chunks)))))"

section \<open>More on the words of a text\<close>

definition wordlike :: "ustr \<Rightarrow> bool" where
  "wordlike w \<longleftrightarrow> w \<noteq> [] \<and> (\<forall>c\<in>set w. \<not> isspace c)"

lemma split_acc_spaces: "\<forall>c\<in>set sp. isspace c \<Longrightarrow> split_acc w sp = split_acc w []"
  by (induction sp arbitrary: w) auto

lemma split_acc_app_spaces:
  "\<forall>c\<in>set sp. isspace c \<Longrightarrow> split_acc w (s @ sp) = split_acc w s"
proof (induction s arbitrary: w)
  case Nil
  then show ?case using split_acc_spaces by simp
next
  case (Cons c s)
  then show ?case by simp
qed

lemma split_acc_nospace:
  "\<forall>c\<in>set x. \<not> isspace c \<Longrightarrow> split_acc w (x @ s) = split_acc (w @ x) s"
  by (induction x arbitrary: w) auto

lemma str_split_dropWhile: "str_split (dropWhile isspace s) = str_split s"
  by (induction s) (auto simp: str_split_def)

lemma str_split_strip: "str_split (str_strip s) = str_split s"
proof -
  let ?t = "dropWhile isspace s"
  have "?t = rev (dropWhile isspace (rev ?t)) @ rev (takeWhile isspace (rev ?t))"
    by (metis rev_append rev_rev_ident takeWhile_dropWhile_id)
  moreover have "\<forall>c\<in>set (rev (takeWhile isspace (rev ?t))). isspace c"
    by (auto dest: set_takeWhileD)
  ultimately have "str_split ?t = str_split (rev (dropWhile isspace (rev ?t)))"
    unfolding str_split_def by (metis split_acc_app_spaces)
  then show ?thesis
    by (simp add: str_strip_def lstrip_with_def rstrip_with_def str_split_dropWhile)
qed

lemma split_acc_wordlike:
  "\<forall>c\<in>set w. \<not> isspace c \<Longrightarrow> \<forall>v\<in>set (split_acc w s). wordlike v"
proof (induction s arbitrary: w)
  case Nil
  then show ?case by (simp add: wordlike_def)
next
  case (Cons c s)
  show ?case
  proof (cases "isspace c")
    case True
    have "\<forall>v\<in>set (split_acc [] s). wordlike v"
      by (rule Cons.IH) simp
    then show ?thesis using True Cons.prems by (simp add: wordlike_def)
  next
    case False
    have "\<forall>v\<in>set (split_acc (w @ [c]) s). wordlike v"
      by (rule Cons.IH) (use False Cons.prems in auto)
    then show ?thesis using False by simp
  qed
qed

lemma str_split_wordlike: "v \<in> set (str_split s) \<Longrightarrow> wordlike v"
  using split_acc_wordlike [of "[]" s] by (simp add: str_split_def)

lemma isspace_32: "isspace 32"
  by (simp add: isspace_def)

lemma str_split_word: "wordlike w \<Longrightarrow> str_split w = [w]"
  using split_acc_nospace [of w "[]" "[]"] by (simp add: str_split_def wordlike_def)

lemma str_split_join:
  "\<forall>w\<in>set ws. wordlike w \<Longrightarrow> str_split (str_join [32] ws) = ws"
proof (induction ws)
  case Nil
  then show ?case by (simp add: str_split_def)
next
  case (Cons w ws)
  show ?case
  proof (cases ws)
    case Nil
    then show ?thesis using Cons.prems by (simp add: str_split_word)
  next
    case (Cons v vs)
    have "str_split (w @ 32 # str_join [32] (v # vs))
            = str_split w @ str_split (str_join [32] (v # vs))"
      by (rule str_split_app_space) (rule isspace_32)
    then show ?thesis using Cons.IH Cons.prems Cons by (simp add: str_split_word)
  qed
qed






section \<open>Properties every emitted chunk has\<close>

subsection \<open>Windows\<close>

lemma set_slice: "set (slice xs a b) \<subseteq> set xs"
  unfolding slice_def Let_def
  by (meson set_take_subset set_drop_subset subset_trans)

lemma slice_window:
  assumes "pos < length xs" "0 \<le> stop" "stop \<le> int (length xs)"
  shows "slice xs (int pos) stop = take (nat stop - pos) (drop pos xs)"
  using assms by (simp add: slice_def slice_bound_def Let_def min_def)

text \<open>What every chunk of the window loop looks like.\<close>

definition window_chunk :: "ustr list \<Rightarrow> Chunk \<Rightarrow> bool" where
  "window_chunk words c \<longleftrightarrow>
     (\<exists>cw. cw \<noteq> [] \<and> set cw \<subseteq> set words \<and> c_text c = str_join [32] cw
           \<and> c_token_count c = int (length cw))"

lemma window_loop_chunks:
  "window_loop cfg po words tx bk path ty off pos = Inr cs \<Longrightarrow>
   \<forall>c\<in>set cs. window_chunk words c"
proof (induction cfg po words tx bk path ty off pos arbitrary: cs rule: window_loop.induct)
  case (1 cfg po words tx bk path ty off pos)
  let ?stop = "min (int pos + target_tokens cfg) (int (length words))"
  let ?cw = "slice words (int pos) ?stop"
  let ?c = "mk_Chunk (str_join [32] ?cw) bk path ty
              (off + po (int pos) (length words) (length tx))
              (off + po ?stop (length words) (length tx)) (int (length ?cw))"
  show ?case
  proof (cases "pos < length words")
    case False
    then show ?thesis using "1.prems" by (simp add: window_loop.simps [of _ _ _ _ _ _ _ _ pos])
  next
    case True
    have ne: "?cw \<noteq> []"
      using "1.prems" True
      by (auto simp: window_loop.simps [of _ _ _ _ _ _ _ _ pos] Let_def split: if_splits)
    have wc: "window_chunk words ?c"
      unfolding window_chunk_def using ne set_slice [of words "int pos" ?stop]
      by (intro exI [of _ ?cw]) (simp add: mk_Chunk_def)
    show ?thesis
    proof (cases "int (length words) \<le> ?stop")
      case last: True
      then have "cs = [?c]"
        using "1.prems" True ne
        by (simp add: window_loop.simps [of _ _ _ _ _ _ _ _ pos] Let_def)
      then show ?thesis using wc by simp
    next
      case more: False
      then obtain rest where
        r: "window_loop cfg po words tx bk path ty off (pos + window_step cfg) = Inr rest"
        and cs: "cs = ?c # rest"
        using "1.prems" True ne
        by (auto simp: window_loop.simps [of _ _ _ _ _ _ _ _ pos] Let_def split: sum.splits)
      have "\<forall>c\<in>set rest. window_chunk words c"
        using "1.IH" [OF True refl refl ne refl more r] .
      then show ?thesis using cs wc by simp
    qed
  qed
qed

text \<open>The token count of a chunk is the number of words of its text.\<close>

definition counted :: "Chunk \<Rightarrow> bool" where
  "counted c \<longleftrightarrow> c_token_count c = int (length (str_split (c_text c)))"

lemma window_chunk_counted:
  assumes "window_chunk (str_split tx) c"
  shows "counted c"
proof -
  from assms obtain cw where cw: "set cw \<subseteq> set (str_split tx)"
    "c_text c = str_join [32] cw" "c_token_count c = int (length cw)"
    unfolding window_chunk_def by blast
  have "\<forall>w\<in>set cw. wordlike w"
    using cw(1) str_split_wordlike by blast
  then show ?thesis
    using cw by (simp add: counted_def str_split_join)
qed

lemma sliding_window_counted:
  assumes "sliding_window_chunks cfg po tx bk path ty off = Inr cs"
  shows "\<forall>c\<in>set cs. counted c"
proof (cases "str_split tx = [] \<or> int (length (str_split tx)) \<le> max_tokens cfg")
  case True
  then show ?thesis
    using assms
    by (auto simp: sliding_window_chunks_def Let_def counted_def mk_Chunk_def str_split_strip
             split: if_splits)
next
  case False
  then have "window_loop cfg po (str_split tx) tx bk path ty off 0 = Inr cs"
    using assms by (simp add: sliding_window_chunks_def Let_def)
  then show ?thesis
    using window_loop_chunks window_chunk_counted by blast
qed

subsection \<open>Windows under a valid configuration\<close>

lemma window_loop_total:
  assumes "0 < target_tokens cfg"
  shows "\<exists>cs. window_loop cfg po words tx bk path ty off pos = Inr cs
            \<and> (\<forall>c\<in>set cs. c_token_count c \<le> target_tokens cfg)"
  using assms
proof (induction cfg po words tx bk path ty off pos rule: window_loop.induct)
  case (1 cfg po words tx bk path ty off pos)
  let ?stop = "min (int pos + target_tokens cfg) (int (length words))"
  let ?cw = "slice words (int pos) ?stop"
  let ?c = "mk_Chunk (str_join [32] ?cw) bk path ty
              (off + po (int pos) (length words) (length tx))
              (off + po ?stop (length words) (length tx)) (int (length ?cw))"
  show ?case
  proof (cases "pos < length words")
    case False
    then show ?thesis by (simp add: window_loop.simps [of _ _ _ _ _ _ _ _ pos])
  next
    case True
    have cw: "?cw = take (nat ?stop - pos) (drop pos words)"
      using True "1.prems" by (intro slice_window) auto
    have "length ?cw = min (nat ?stop - pos) (length words - pos)"
      by (subst cw) simp
    then have len: "0 < length ?cw" "int (length ?cw) \<le> target_tokens cfg"
      using True "1.prems" by linarith+
    then have ne: "?cw \<noteq> []" by auto
    show ?thesis
    proof (cases "int (length words) \<le> ?stop")
      case last: True
      then have "window_loop cfg po words tx bk path ty off pos = Inr [?c]"
        using True ne by (simp add: window_loop.simps [of _ _ _ _ _ _ _ _ pos] Let_def)
      then show ?thesis using len by (simp add: mk_Chunk_def)
    next
      case more: False
      from "1.IH" [OF True refl refl ne refl more "1.prems"] obtain rest where
        r: "window_loop cfg po words tx bk path ty off (pos + window_step cfg) = Inr rest"
           "\<forall>c\<in>set rest. c_token_count c \<le> target_tokens cfg"
        by blast
      have "window_loop cfg po words tx bk path ty off pos = Inr (?c # rest)"
        using True ne more r(1)
        by (simp add: window_loop.simps [of _ _ _ _ _ _ _ _ pos] Let_def)
      then show ?thesis using r(2) len by (simp add: mk_Chunk_def)
    qed
  qed
qed

lemma sliding_window_total:
  assumes "valid_config cfg"
  shows "\<exists>cs. sliding_window_chunks cfg po tx bk path ty off = Inr cs
            \<and> (\<forall>c\<in>set cs. c_token_count c \<le> max_tokens cfg)"
proof (cases "str_split tx = [] \<or> int (length (str_split tx)) \<le> max_tokens cfg")
  case True
  then show ?thesis
    by (auto simp: sliding_window_chunks_def Let_def mk_Chunk_def)
next
  case False
  have t: "0 < target_tokens cfg" "target_tokens cfg \<le> max_tokens cfg"
    using assms by (simp_all add: valid_config_def)
  from window_loop_total [OF t(1), of po "str_split tx" tx bk path ty off 0] obtain cs where
    "window_loop cfg po (str_split tx) tx bk path ty off 0 = Inr cs"
    "\<forall>c\<in>set cs. c_token_count c \<le> target_tokens cfg" by blast
  then show ?thesis
    using False t(2) by (auto simp: sliding_window_chunks_def Let_def)
qed

subsection \<open>The assembler\<close>

lemma chunk_sections_all:
  assumes "\<And>tx path ty a b. int (estimate_tokens tx) \<le> max_tokens cfg \<Longrightarrow>
             P (mk_Chunk tx bk path ty a b (int (estimate_tokens tx)))"
      and "\<And>tx path ty off cs. sliding_window_chunks cfg po tx bk path ty off = Inr cs \<Longrightarrow>
             \<forall>c\<in>set cs. P c"
  shows "chunk_sections cfg po secs bk pp = Inr cs \<Longrightarrow> \<forall>c\<in>set cs. P c"
    and "chunk_section cfg po sec bk pp = Inr cs' \<Longrightarrow> \<forall>c\<in>set cs'. P c"
  using assms
proof (induction cfg po secs bk pp and cfg po sec bk pp arbitrary: cs and cs'
       rule: chunk_sections_chunk_section.induct)
  case (1 cfg po bk pp)
  then show ?case by simp
next
  case (2 cfg po sec secs bk pp)
  from "2.prems"(1) obtain xs ys where
    xs: "chunk_section cfg po sec bk pp = Inr xs" and
    ys: "chunk_sections cfg po secs bk pp = Inr ys" and cs: "cs = xs @ ys"
    by (auto split: sum.splits)
  have "\<forall>c\<in>set xs. P c"
    using "2.IH"(1) [OF xs "2.prems"(2,3)] .
  moreover have "\<forall>c\<in>set ys. P c"
    using "2.IH"(2) [OF xs ys "2.prems"(2,3)] .
  ultimately show ?case using cs by auto
next
  case (3 cfg po d subs bk pp)
  show ?case
  proof (cases "subs = []")
    case False
    then have e: "chunk_sections cfg po subs bk (build_section_path pp d) = Inr cs'"
      using "3.prems"(1) by (simp add: Let_def)
    show ?thesis
      using "3.IH" [OF refl False e "3.prems"(2,3)] .
  next
    case True
    show ?thesis
    proof (cases "int (estimate_tokens (s_text d)) \<le> max_tokens cfg")
      case le: True
      then show ?thesis
        using "3.prems"(1) True "3.prems"(2) [OF le]
        by (auto simp: Let_def split: if_splits)
    next
      case gt: False
      then show ?thesis
        using "3.prems"(1) True "3.prems"(3) by (simp add: Let_def)
    qed
  qed
qed

lemma paragraph_loop_all:
  assumes "\<And>tx path ty a b. int (estimate_tokens tx) \<le> max_tokens cfg \<Longrightarrow>
             P (mk_Chunk tx bk path ty a b (int (estimate_tokens tx)))"
      and "\<And>tx path ty off cs. sliding_window_chunks cfg po tx bk path ty off = Inr cs \<Longrightarrow>
             \<forall>c\<in>set cs. P c"
  shows "paragraph_loop cfg po tx bk path off cur paras = Inr cs \<Longrightarrow> \<forall>c\<in>set cs. P c"
proof (induction paras arbitrary: cur cs)
  case Nil
  then show ?case by simp
next
  case (Cons para paras)
  show ?case
  proof (cases "str_strip para = []")
    case True
    then show ?thesis using Cons by (simp add: Let_def)
  next
    case False
    let ?start = "para_start_of tx para cur"
    let ?tc = "estimate_tokens (str_strip para)"
    let ?here = "if max_tokens cfg < int ?tc
                 then sliding_window_chunks cfg po (str_strip para) bk path
                        ''paragraph'' (off + int ?start)
                 else Inr [mk_Chunk (str_strip para) bk path ''paragraph''
                             (off + int ?start) (off + int (?start + length para)) (int ?tc)]"
    from Cons.prems False obtain xs ys where
      xs: "?here = Inr xs" and
      ys: "paragraph_loop cfg po tx bk path off (?start + length para) paras = Inr ys" and
      cs: "cs = xs @ ys"
      by (auto simp: Let_def split: sum.splits)
    have "\<forall>c\<in>set xs. P c"
    proof (cases "max_tokens cfg < int ?tc")
      case True
      then show ?thesis using xs assms(2) by simp
    next
      case False
      then have "int ?tc \<le> max_tokens cfg" by simp
      from assms(1) [OF this] show ?thesis using xs False by auto
    qed
    moreover have "\<forall>c\<in>set ys. P c" using Cons.IH [OF ys] .
    ultimately show ?thesis using cs by auto
  qed
qed

lemma chunk_sections_total:
  assumes "\<And>tx path ty off. \<exists>cs. sliding_window_chunks cfg po tx bk path ty off = Inr cs"
  shows "\<exists>cs. chunk_sections cfg po secs bk pp = Inr cs"
    and "\<exists>cs. chunk_section cfg po sec bk pp = Inr cs"
  using assms
proof (induction cfg po secs bk pp and cfg po sec bk pp
       rule: chunk_sections_chunk_section.induct)
  case (1 cfg po bk pp)
  then show ?case by simp
next
  case (2 cfg po sec secs bk pp)
  from "2.IH"(1) [OF "2.prems"] obtain xs where
    xs: "chunk_section cfg po sec bk pp = Inr xs" by blast
  from "2.IH"(2) [OF xs "2.prems"] obtain ys where
    "chunk_sections cfg po secs bk pp = Inr ys" by blast
  then show ?case using xs by simp
next
  case (3 cfg po d subs bk pp)
  show ?case
  proof (cases "subs = []")
    case False
    then show ?thesis
      using "3.IH" [OF refl False "3.prems"] by (simp add: Let_def)
  next
    case True
    then show ?thesis using "3.prems" by (simp add: Let_def)
  qed
qed

lemma paragraph_loop_total:
  assumes "\<And>tx path ty off. \<exists>cs. sliding_window_chunks cfg po tx bk path ty off = Inr cs"
  shows "\<exists>cs. paragraph_loop cfg po tx bk path off cur paras = Inr cs"
proof (induction paras arbitrary: cur)
  case Nil
  then show ?case by simp
next
  case (Cons para paras)
  show ?case
  proof (cases "str_strip para = []")
    case True
    then show ?thesis using Cons by (simp add: Let_def)
  next
    case False
    let ?start = "para_start_of tx para cur"
    obtain xs where xs: "sliding_window_chunks cfg po (str_strip para) bk path
                        ''paragraph'' (off + int ?start) = Inr xs"
      using assms by blast
    obtain ys where "paragraph_loop cfg po tx bk path off (?start + length para) paras = Inr ys"
      using Cons by blast
    then show ?thesis using xs False by (simp add: Let_def)
  qed
qed

subsection \<open>The merger and the index assigner\<close>

lemma merge_from_all:
  assumes "\<And>a b. P a \<Longrightarrow> P b \<Longrightarrow> mergeable cfg a b \<Longrightarrow> P (merge_two a b)"
  shows "P a \<Longrightarrow> \<forall>c\<in>set cs. P c \<Longrightarrow> \<forall>c\<in>set (merge_from cfg a cs). P c"
proof (induction cs arbitrary: a)
  case Nil
  then show ?case by simp
next
  case (Cons c cs)
  then show ?case using assms by (cases "mergeable cfg a c") auto
qed

lemma merge_small_chunks_all:
  assumes "\<And>a b. P a \<Longrightarrow> P b \<Longrightarrow> mergeable cfg a b \<Longrightarrow> P (merge_two a b)"
      and "\<forall>c\<in>set cs. P c"
  shows "\<forall>c\<in>set (merge_small_chunks cfg cs). P c"
proof (cases cs)
  case Nil
  then show ?thesis by (simp add: merge_small_chunks_def)
next
  case (Cons a rest)
  then show ?thesis
    using merge_from_all [of P cfg a rest] assms by (simp add: merge_small_chunks_Cons)
qed

lemma assign_indices_all:
  assumes "\<And>c i t. P c \<Longrightarrow> P (c\<lparr>c_chunk_index := i, c_total_chunks_in_section := t\<rparr>)"
      and "\<forall>c\<in>set cs. P c"
  shows "\<forall>c\<in>set (assign_indices cs). P c"
proof
  fix c assume "c \<in> set (assign_indices cs)"
  then obtain k where k: "k < length cs" "c = assign_indices cs ! k"
    using assign_indices_nth [of cs] by (metis in_set_conv_nth)
  then have "\<exists>i t. c = (cs ! k)\<lparr>c_chunk_index := i, c_total_chunks_in_section := t\<rparr>"
    using assign_indices_nth [of cs] by blast
  then show "P c" using assms k(1) by auto
qed

subsection \<open>The scanner never fails\<close>

lemma collect_total:
  "\<forall>x\<in>set xs. \<exists>ys. f x = Inr ys \<Longrightarrow> \<exists>zs. collect f xs = Inr zs"
  by (induction xs) auto

lemma pattern_markers_total:
  "map_of HIERARCHY_LEVELS ty \<noteq> None \<Longrightarrow> \<exists>ms. pattern_markers tx (ty, pat) = Inr ms"
  by (auto simp: pattern_markers_def split: list.splits)

lemma scan_markers_total: "\<exists>ms. scan_markers tx = Inr ms"
proof -
  have "\<forall>x\<in>set STRUCTURE_PATTERNS. \<exists>ms. pattern_markers tx x = Inr ms"
    using pattern_markers_total
    by (auto simp: STRUCTURE_PATTERNS_def HIERARCHY_LEVELS_def)
  from collect_total [OF this] show ?thesis
    by (auto simp: scan_markers_def)
qed

lemma detect_sections_total: "\<exists>secs. detect_sections tx = Inr secs"
  using scan_markers_total [of tx] by (auto simp: detect_sections_def)

section \<open>The chunks of a document\<close>

text \<open>The window offsets computed without rounding error.\<close>

definition exact_offset :: offset_fn where
  "exact_offset pos n len = (pos * int len) div int n"

text \<open>A small valid configuration.\<close>

definition small_config :: ChunkingConfig where
  "small_config = \<lparr>target_tokens = 2, max_tokens = 3, min_tokens = 1, overlap_tokens = 1\<rparr>"

text \<open>
  A document of one siman with an introduction and two seifim:
  the lines \<open>siman A\<close>, \<open>intro words\<close>, \<open>seif A\<close>, \<open>content here\<close>, \<open>seif B\<close>,
  \<open>more\<close>.
\<close>

definition siman_doc :: ustr where
  "siman_doc = [1505, 1497, 1502, 1503, 32, 1488, 10, 105, 110, 116, 114, 111, 32, 119, 111, 114, 100, 115, 10, 1505, 1506, 1497, 1507, 32, 1488, 10, 99, 111, 110, 116, 101, 110, 116, 32, 104, 101, 114, 101, 10, 1505, 1506, 1497, 1507, 32, 1489, 10, 109, 111, 114, 101]"

definition book_of :: "ustr \<Rightarrow> ParsedBook" where
  "book_of tx = \<lparr>pb_title = lit ''T'', pb_author = [], pb_language = lit ''he'',
                  pb_raw_text = tx\<rparr>"

text \<open>The metadata \<open>chunk\<close> passes down, and \<open>chunk\<close> on a text that is not blank.\<close>

definition book_meta :: "ustr \<Rightarrow> ParsedBook \<Rightarrow> ustr option \<Rightarrow> BookMeta" where
  "book_meta uuid pb gid =
     \<lparr>book_id = (case gid of None \<Rightarrow> uuid | Some b \<Rightarrow> if b = [] then uuid else b),
      book_title = pb_title pb, book_author = pb_author pb, language = pb_language pb\<rparr>"

definition assemble ::
  "ChunkingConfig \<Rightarrow> offset_fn \<Rightarrow> ustr \<Rightarrow> BookMeta \<Rightarrow> Section list \<Rightarrow> error + Chunk list" where
  "assemble cfg po tx bk secs =
     (if secs \<noteq> [] then chunk_sections cfg po secs bk []
      else chunk_by_paragraphs cfg po tx bk [] 0)"

lemma chunk_blank: "str_strip (pb_raw_text pb) = [] \<Longrightarrow> chunk cfg po uuid pb gid = Inr []"
  by (simp add: chunk_def Let_def)

lemma chunk_nonblank:
  "str_strip (pb_raw_text pb) \<noteq> [] \<Longrightarrow>
   chunk cfg po uuid pb gid =
     (case detect_sections (pb_raw_text pb) of
        Inl e \<Rightarrow> Inl e
      | Inr secs \<Rightarrow>
          (case assemble cfg po (pb_raw_text pb) (book_meta uuid pb gid) secs of
             Inl e \<Rightarrow> Inl e
           | Inr chunks \<Rightarrow> Inr (assign_indices (merge_small_chunks cfg chunks))))"
  by (auto simp: chunk_def Let_def book_meta_def assemble_def split: sum.splits)

lemma assemble_all:
  assumes "\<And>tx path ty a b. int (estimate_tokens tx) \<le> max_tokens cfg \<Longrightarrow>
             P (mk_Chunk tx bk path ty a b (int (estimate_tokens tx)))"
      and "\<And>tx path ty off cs. sliding_window_chunks cfg po tx bk path ty off = Inr cs \<Longrightarrow>
             \<forall>c\<in>set cs. P c"
      and "assemble cfg po tx bk secs = Inr cs"
  shows "\<forall>c\<in>set cs. P c"
proof (cases "secs \<noteq> []")
  case True
  then have "chunk_sections cfg po secs bk [] = Inr cs"
    using assms(3) by (simp add: assemble_def)
  then show ?thesis
    using chunk_sections_all(1) [of cfg P bk po secs "[]" cs] assms(1,2) by blast
next
  case False
  then have "paragraph_loop cfg po tx bk [] 0 0 (re_split PARAGRAPH_BREAK tx) = Inr cs"
    using assms(3) by (simp add: assemble_def chunk_by_paragraphs_def)
  then show ?thesis
    using paragraph_loop_all [of cfg P bk po tx "[]" 0 0 _ cs] assms(1,2) by blast
qed

lemma assemble_total:
  assumes "\<And>tx path ty off. \<exists>cs. sliding_window_chunks cfg po tx bk path ty off = Inr cs"
  shows "\<exists>cs. assemble cfg po tx bk secs = Inr cs"
  using chunk_sections_total(1) [of cfg po bk secs "[]"]
    paragraph_loop_total [of cfg po bk tx "[]" 0 0 "re_split PARAGRAPH_BREAK tx"] assms
  by (simp add: assemble_def chunk_by_paragraphs_def)

lemma merge_two_ceiling:
  "mergeable cfg a b \<Longrightarrow> c_token_count (merge_two a b) \<le> max_tokens cfg"
  by (simp add: mergeable_def merge_two_def)

lemma merge_two_counted: "counted a \<Longrightarrow> counted b \<Longrightarrow> counted (merge_two a b)"
  by (simp add: counted_def merge_two_def str_split_blank_line)

text \<open>
  C1.  For every document and every valid configuration the chunker returns a chunk
  list, and every chunk of it has \<open>token_count \<le> max_tokens\<close>.  (A run without white
  space is one word and counts as one token, so it never exceeds the bound either.)
\<close>

theorem chunk_token_ceiling:
  assumes "valid_config cfg"
  shows "\<exists>cs. chunk cfg po uuid pb gid = Inr cs
            \<and> (\<forall>c\<in>set cs. c_token_count c \<le> max_tokens cfg)"
proof (cases "str_strip (pb_raw_text pb) = []")
  case True
  then show ?thesis by (simp add: chunk_blank)
next
  case False
  let ?bk = "book_meta uuid pb gid"
  let ?P = "\<lambda>c. c_token_count c \<le> max_tokens cfg"
  have leaf: "\<And>tx path ty a b. int (estimate_tokens tx) \<le> max_tokens cfg \<Longrightarrow>
                ?P (mk_Chunk tx ?bk path ty a b (int (estimate_tokens tx)))"
    by (simp add: mk_Chunk_def)
  have win: "\<And>tx path ty off cs.
      sliding_window_chunks cfg po tx ?bk path ty off = Inr cs \<Longrightarrow> \<forall>c\<in>set cs. ?P c"
    using sliding_window_total [OF assms] by (metis sum.inject(2))
  have tot: "\<And>tx path ty off. \<exists>cs. sliding_window_chunks cfg po tx ?bk path ty off = Inr cs"
    using sliding_window_total [OF assms] by blast
  obtain secs where secs: "detect_sections (pb_raw_text pb) = Inr secs"
    using detect_sections_total by blast
  obtain raw where raw: "assemble cfg po (pb_raw_text pb) ?bk secs = Inr raw"
    using assemble_total [of cfg po ?bk] tot by blast
  have "\<forall>c\<in>set raw. ?P c"
    using assemble_all [of cfg ?P ?bk po, OF leaf win raw] .
  then have "\<forall>c\<in>set (merge_small_chunks cfg raw). ?P c"
    by (intro merge_small_chunks_all) (auto simp: merge_two_ceiling)
  then have "\<forall>c\<in>set (assign_indices (merge_small_chunks cfg raw)). ?P c"
    by (intro assign_indices_all) auto
  then show ?thesis
    using secs raw False by (simp add: chunk_nonblank)
qed

theorem chunk_token_ceiling_witness:
  "valid_config small_config
   \<and> map_sum id (map c_token_count)
       (chunk small_config exact_offset [] (book_of siman_doc) None) = Inr [2, 2, 2, 3]"
proof -
  have "valid_config small_config"
    by (simp add: valid_config_def small_config_def)
  moreover have "map_sum id (map c_token_count)
       (chunk small_config exact_offset [] (book_of siman_doc) None) = Inr [2, 2, 2, 3]"
    by code_simp
  ultimately show ?thesis
    using chunk_token_ceiling [of small_config exact_offset "[]" "book_of siman_doc" None]
    by simp
qed

text \<open>
  C7.  Every chunk the chunker returns, merged or not, has as its \<open>token_count\<close> the
  number of white-space delimited words of its text.
\<close>

theorem chunk_token_count_is_word_count:
  assumes "chunk cfg po uuid pb gid = Inr cs"
  shows "\<forall>c\<in>set cs. c_token_count c = int (length (str_split (c_text c)))"
proof (cases "str_strip (pb_raw_text pb) = []")
  case True
  then show ?thesis using assms by (simp add: chunk_blank)
next
  case False
  let ?bk = "book_meta uuid pb gid"
  have leaf: "\<And>tx path ty a b. int (estimate_tokens tx) \<le> max_tokens cfg \<Longrightarrow>
                counted (mk_Chunk tx ?bk path ty a b (int (estimate_tokens tx)))"
    by (simp add: mk_Chunk_def counted_def estimate_tokens_def)
  have win: "\<And>tx path ty off cs.
      sliding_window_chunks cfg po tx ?bk path ty off = Inr cs \<Longrightarrow> \<forall>c\<in>set cs. counted c"
    using sliding_window_counted by blast
  from assms False obtain secs raw where
    raw: "assemble cfg po (pb_raw_text pb) ?bk secs = Inr raw"
    and cs: "cs = assign_indices (merge_small_chunks cfg raw)"
    by (auto simp: chunk_nonblank split: sum.splits)
  have "\<forall>c\<in>set raw. counted c"
    using assemble_all [of cfg counted ?bk po, OF leaf win raw] .
  then have "\<forall>c\<in>set (merge_small_chunks cfg raw). counted c"
    by (intro merge_small_chunks_all) (auto simp: merge_two_counted)
  then have "\<forall>c\<in>set (assign_indices (merge_small_chunks cfg raw)). counted c"
    by (intro assign_indices_all) (auto simp: counted_def)
  then show ?thesis using cs by (simp add: counted_def)
qed

text \<open>The chunks of \<open>siman_doc\<close> under \<open>small_config\<close>: three windows of the first
  seif and the second seif, each with its token count and the number of its words.\<close>

theorem chunk_token_count_is_word_count_witness:
  "map_sum id (map (\<lambda>c. (c_text c, c_token_count c, int (length (str_split (c_text c))))))
     (chunk small_config exact_offset [] (book_of siman_doc) None)
   = Inr [([1505, 1506, 1497, 1507, 32, 1488], 2, 2), ([1488, 32, 99, 111, 110, 116, 101, 110, 116], 2, 2), ([99, 111, 110, 116, 101, 110, 116, 32, 104, 101, 114, 101], 2, 2), ([1505, 1506, 1497, 1507, 32, 1489, 10, 109, 111, 114, 101], 3, 3)]"
proof -
  have e: "map_sum id (map c_text)
             (chunk small_config exact_offset [] (book_of siman_doc) None)
           = Inr [[1505, 1506, 1497, 1507, 32, 1488], [1488, 32, 99, 111, 110, 116, 101, 110, 116], [99, 111, 110, 116, 101, 110, 116, 32, 104, 101, 114, 101], [1505, 1506, 1497, 1507, 32, 1489, 10, 109, 111, 114, 101]]"
    by code_simp
  then obtain cs where cs: "chunk small_config exact_offset [] (book_of siman_doc) None = Inr cs"
    by (cases "chunk small_config exact_offset [] (book_of siman_doc) None") auto
  have w: "map (\<lambda>t. int (length (str_split t))) [[1505, 1506, 1497, 1507, 32, 1488], [1488, 32, 99, 111, 110, 116, 101, 110, 116], [99, 111, 110, 116, 101, 110, 116, 32, 104, 101, 114, 101], [1505, 1506, 1497, 1507, 32, 1489, 10, 109, 111, 114, 101]] = [2, 2, 2, 3]"
    by code_simp
  from e cs have t: "map c_text cs = [[1505, 1506, 1497, 1507, 32, 1488], [1488, 32, 99, 111, 110, 116, 101, 110, 116], [99, 111, 110, 116, 101, 110, 116, 32, 104, 101, 114, 101], [1505, 1506, 1497, 1507, 32, 1489, 10, 109, 111, 114, 101]]" by simp
  then obtain c1 c2 c3 c4 where c: "cs = [c1, c2, c3, c4]"
    by (auto simp: map_eq_Cons_conv)
  show ?thesis
    using chunk_token_count_is_word_count [OF cs] cs c t w by simp
qed

section \<open>The section tree\<close>

text \<open>The builder after the first \<open>k\<close> markers.\<close>

definition build_upto :: "Marker list \<Rightarrow> ustr \<Rightarrow> nat \<Rightarrow> builder" where
  "build_upto markers tx k =
     foldl (build_step markers tx) \<lparr>b_store = [], b_roots = [], b_stack = []\<rparr>
       (take k (enumerate 0 markers))"

lemma build_store_upto: "build_store markers tx = build_upto markers tx (length markers)"
  by (simp add: build_store_def build_upto_def)

lemma build_upto_0:
  "build_upto markers tx 0 = \<lparr>b_store = [], b_roots = [], b_stack = []\<rparr>"
  by (simp add: build_upto_def)

lemma build_upto_Suc:
  "k < length markers \<Longrightarrow>
   build_upto markers tx (Suc k)
     = build_step markers tx (build_upto markers tx k) (k, markers ! k)"
  by (simp add: build_upto_def take_Suc_conv_app_nth nth_enumerate_eq)

text \<open>Every subsection lies strictly below its parent in the hierarchy.\<close>

fun strict_levels :: "Section \<Rightarrow> bool" where
  "strict_levels (Section d subs) =
     (\<forall>s\<in>set subs. s_level d < s_level (sdata s) \<and> strict_levels s)"

text \<open>
  What holds of the builder between two markers: the store has one object for each
  marker read, the addresses on the stack and among the roots are valid, the levels
  on the stack decrease strictly from its top down, and a subsection is younger than
  its parent and has a strictly greater level.
\<close>

definition stack_sorted :: "store \<Rightarrow> nat list \<Rightarrow> bool" where
  "stack_sorted st stack = sorted_wrt (\<lambda>x y. level_at st y < level_at st x) stack"

definition store_ok :: "store \<Rightarrow> bool" where
  "store_ok st \<longleftrightarrow>
     (\<forall>p<length st. \<forall>c\<in>set (snd (st ! p)).
         c < length st \<and> p < c \<and> level_at st p < level_at st c)"

definition builder_ok :: "builder \<Rightarrow> nat \<Rightarrow> bool" where
  "builder_ok b k \<longleftrightarrow>
     length (b_store b) = k \<and> (\<forall>a\<in>set (b_stack b). a < k) \<and> (\<forall>a\<in>set (b_roots b). a < k)
     \<and> stack_sorted (b_store b) (b_stack b) \<and> store_ok (b_store b)"

lemma pop_stack_filter:
  "stack_sorted st stack \<Longrightarrow>
   pop_stack st lvl stack = filter (\<lambda>a. level_at st a < lvl) stack"
proof (induction stack)
  case Nil
  then show ?case by (simp add: pop_stack_def)
next
  case (Cons a stack)
  show ?case
  proof (cases "lvl \<le> level_at st a")
    case True
    then show ?thesis using Cons by (simp add: pop_stack_def stack_sorted_def)
  next
    case False
    then have "\<forall>x\<in>set stack. level_at st x < lvl"
      using Cons.prems by (auto simp: stack_sorted_def)
    then have "filter (\<lambda>a. level_at st a < lvl) stack = stack"
      by (simp add: filter_id_conv)
    then show ?thesis using False by (simp add: pop_stack_def)
  qed
qed

lemma level_at_grow:
  "x < length st \<Longrightarrow> level_at (add_subsection st p a @ [n]) x = level_at st x"
  by (cases "x = p") (simp_all add: level_at_def add_subsection_def nth_append)

lemma level_at_snoc: "x < length st \<Longrightarrow> level_at (st @ [n]) x = level_at st x"
  by (simp add: level_at_def nth_append)

lemma level_at_new: "level_at (st @ [(d, cs)]) (length st) = s_level d"
  by (simp add: level_at_def)

lemma level_at_new_sub:
  "level_at (add_subsection st p a @ [(d, cs)]) (length st) = s_level d"
  by (simp add: level_at_def add_subsection_def nth_append)

lemma new_section_level: "s_level (new_section markers tx i m) = m_level m"
  by (simp add: new_section_def Let_def)

text \<open>One step of the builder, on a builder that satisfies the invariant.\<close>

lemma build_step_shape:
  fixes b :: builder and m :: Marker and markers :: "Marker list" and tx :: ustr
  assumes "builder_ok b k"
  defines "lower \<equiv> filter (\<lambda>a. level_at (b_store b) a < m_level m) (b_stack b)"
  defines "b' \<equiv> build_step markers tx b (k, m)"
  shows "b_stack b' = k # lower"
    and "lower = [] \<Longrightarrow>
           b_roots b' = b_roots b @ [k]
           \<and> b_store b' = b_store b @ [(new_section markers tx k m, [])]"
    and "lower = parent # others \<Longrightarrow>
           b_roots b' = b_roots b
           \<and> b_store b' = add_subsection (b_store b) parent k
                             @ [(new_section markers tx k m, [])]"
proof -
  have len: "length (b_store b) = k" and srt: "stack_sorted (b_store b) (b_stack b)"
    using assms(1) by (simp_all add: builder_ok_def)
  have pop: "pop_stack (b_store b) (s_level (new_section markers tx k m)) (b_stack b) = lower"
    using pop_stack_filter [OF srt] by (simp add: lower_def new_section_level)
  show "b_stack b' = k # lower"
    using pop len by (simp add: b'_def build_step_def Let_def split: list.splits)
  show "lower = [] \<Longrightarrow>
           b_roots b' = b_roots b @ [k]
           \<and> b_store b' = b_store b @ [(new_section markers tx k m, [])]"
    using pop len by (simp add: b'_def build_step_def Let_def)
  show "lower = parent # others \<Longrightarrow>
           b_roots b' = b_roots b
           \<and> b_store b' = add_subsection (b_store b) parent k
                             @ [(new_section markers tx k m, [])]"
    using pop len by (simp add: b'_def build_step_def Let_def)
qed

lemma stack_sorted_grow:
  assumes "\<forall>x<length st. level_at st' x = level_at st x"
  shows "\<forall>x\<in>set stack. x < length st \<Longrightarrow> stack_sorted st stack \<Longrightarrow> stack_sorted st' stack"
proof (induction stack)
  case Nil
  then show ?case by (simp add: stack_sorted_def)
next
  case (Cons a stack)
  then show ?case using assms by (simp add: stack_sorted_def)
qed

lemma store_ok_snoc:
  assumes "store_ok st"
  shows "store_ok (st @ [(d, [])])"
  unfolding store_ok_def
proof (intro allI impI ballI)
  fix p c assume p: "p < length (st @ [(d, [])])" and c: "c \<in> set (snd ((st @ [(d, [])]) ! p))"
  then have p': "p < length st" by (cases "p = length st") auto
  then have c': "c \<in> set (snd (st ! p))" using c by (simp add: nth_append)
  then have "c < length st \<and> p < c \<and> level_at st p < level_at st c"
    using assms p' unfolding store_ok_def by blast
  then show "c < length (st @ [(d, [])]) \<and> p < c
             \<and> level_at (st @ [(d, [])]) p < level_at (st @ [(d, [])]) c"
    using p' by (simp add: level_at_snoc)
qed

lemma store_ok_attach:
  assumes "store_ok st" "parent < length st" "level_at st parent < s_level d"
  shows "store_ok (add_subsection st parent (length st) @ [(d, [])])"
  unfolding store_ok_def
proof (intro allI impI ballI)
  let ?st = "add_subsection st parent (length st) @ [(d, [])]"
  fix p c assume p: "p < length ?st" and c: "c \<in> set (snd (?st ! p))"
  have len: "length (add_subsection st parent (length st)) = length st"
    by (simp add: add_subsection_def)
  from p c have p': "p < length st"
    by (cases "p = length st") (auto simp: len nth_append)
  have lv: "\<And>x. x < length st \<Longrightarrow> level_at ?st x = level_at st x"
    by (rule level_at_grow)
  have subs: "snd (?st ! p) = (if p = parent then snd (st ! p) @ [length st] else snd (st ! p))"
    using p' assms(2) by (simp add: add_subsection_def nth_append)
  show "c < length ?st \<and> p < c \<and> level_at ?st p < level_at ?st c"
  proof (cases "c \<in> set (snd (st ! p))")
    case True
    then have "c < length st \<and> p < c \<and> level_at st p < level_at st c"
      using assms(1) p' unfolding store_ok_def by blast
    then show ?thesis using lv p' by (simp add: len)
  next
    case False
    then have "p = parent" "c = length st"
      using c subs by (auto split: if_splits)
    then show ?thesis
      using assms(2,3) lv [OF assms(2)] by (simp add: len level_at_new_sub)
  qed
qed

lemma build_step_ok:
  assumes "builder_ok b k"
  shows "builder_ok (build_step markers tx b (k, m)) (Suc k)"
proof -
  let ?lower = "filter (\<lambda>a. level_at (b_store b) a < m_level m) (b_stack b)"
  let ?b = "build_step markers tx b (k, m)"
  let ?d = "new_section markers tx k m"
  note S = build_step_shape [OF assms, where m = m and markers = markers and tx = tx]
  have len: "length (b_store b) = k" and stk: "\<forall>a\<in>set (b_stack b). a < k"
    and rts: "\<forall>a\<in>set (b_roots b). a < k"
    and srt: "stack_sorted (b_store b) (b_stack b)" and ok: "store_ok (b_store b)"
    using assms by (simp_all add: builder_ok_def)
  have low: "\<forall>a\<in>set ?lower. a < k \<and> level_at (b_store b) a < m_level m"
    using stk by auto
  have srt_low: "stack_sorted (b_store b) ?lower"
    using srt by (simp add: stack_sorted_def sorted_wrt_filter)
  show ?thesis
  proof (cases ?lower)
    case Nil
    then have st: "b_store ?b = b_store b @ [(?d, [])]" and r: "b_roots ?b = b_roots b @ [k]"
      and s: "b_stack ?b = [k]"
      using S by simp_all
    have c1: "length (b_store ?b) = Suc k" by (simp add: st len)
    have c2: "\<forall>a\<in>set (b_stack ?b). a < Suc k" by (simp add: s)
    have c3: "\<forall>a\<in>set (b_roots ?b). a < Suc k"
      using rts by (auto simp: r less_Suc_eq)
    have c4: "stack_sorted (b_store ?b) (b_stack ?b)"
      by (simp add: s stack_sorted_def)
    have c5: "store_ok (b_store ?b)"
      using store_ok_snoc [OF ok] by (simp add: st)
    show ?thesis
      unfolding builder_ok_def using c1 c2 c3 c4 c5 by blast
  next
    case (Cons parent others)
    then have st: "b_store ?b = add_subsection (b_store b) parent k @ [(?d, [])]"
      and r: "b_roots ?b = b_roots b" and s: "b_stack ?b = k # ?lower"
      using S by simp_all
    have par: "parent < k" "level_at (b_store b) parent < m_level m"
      using low Cons by (metis list.set_intros(1))+
    have lv: "\<forall>x<length (b_store b). level_at (b_store ?b) x = level_at (b_store b) x"
      using st len level_at_grow by simp
    have lvk: "level_at (b_store ?b) k = m_level m"
      using st len level_at_new_sub [of "b_store b" parent k ?d "[]"]
      by (simp add: new_section_level)
    have "\<forall>x\<in>set ?lower. x < length (b_store b)"
      using low len by simp
    from stack_sorted_grow [OF lv this srt_low]
    have "stack_sorted (b_store ?b) ?lower" .
    moreover have "\<forall>x\<in>set ?lower. level_at (b_store ?b) x < level_at (b_store ?b) k"
      using low lv lvk len by auto
    ultimately have c4: "stack_sorted (b_store ?b) (b_stack ?b)"
      by (simp add: s stack_sorted_def)
    have c5: "store_ok (b_store ?b)"
      using store_ok_attach [OF ok, of parent ?d] par len
      by (simp add: st new_section_level)
    have c1: "length (b_store ?b) = Suc k"
      by (simp add: st len add_subsection_def)
    have c2: "\<forall>a\<in>set (b_stack ?b). a < Suc k"
      using low by (auto simp: s less_Suc_eq)
    have c3: "\<forall>a\<in>set (b_roots ?b). a < Suc k"
      using rts by (auto simp: r less_Suc_eq)
    show ?thesis
      unfolding builder_ok_def using c1 c2 c3 c4 c5 by blast
  qed
qed

lemma build_upto_ok: "k \<le> length markers \<Longrightarrow> builder_ok (build_upto markers tx k) k"
proof (induction k)
  case 0
  then show ?case
    by (simp add: build_upto_0 builder_ok_def stack_sorted_def store_ok_def)
next
  case (Suc k)
  then show ?case by (simp add: build_upto_Suc build_step_ok)
qed


subsection \<open>Reading the forest\<close>

lemma sdata_section_at: "sdata (section_at fuel st a) = fst (st ! a)"
  by (cases fuel) simp_all

lemma section_at_strict:
  "store_ok st \<Longrightarrow> a < length st \<Longrightarrow> strict_levels (section_at fuel st a)"
proof (induction fuel arbitrary: a)
  case 0
  then show ?case by simp
next
  case (Suc fuel)
  have "\<forall>c\<in>set (snd (st ! a)). c < length st \<and> level_at st a < level_at st c"
    using Suc.prems unfolding store_ok_def by blast
  then show ?case
    using Suc.IH [OF Suc.prems(1)] by (simp add: sdata_section_at level_at_def)
qed

text \<open>The depth bound of \<open>build_section_tree\<close> is never reached: with the invariant,
  reading an object with more fuel gives the same section.\<close>

lemma section_at_enough:
  "store_ok st \<Longrightarrow> a < length st \<Longrightarrow> length st - a \<le> f \<Longrightarrow> length st - a \<le> g \<Longrightarrow>
   section_at f st a = section_at g st a"
proof (induction f arbitrary: g a)
  case 0
  then show ?case by simp
next
  case (Suc f)
  from Suc.prems obtain g' where g: "g = Suc g'" by (cases g) auto
  have ch: "\<forall>c\<in>set (snd (st ! a)). c < length st \<and> a < c"
    using Suc.prems(1,2) unfolding store_ok_def by blast
  have "map (section_at f st) (snd (st ! a)) = map (section_at g' st) (snd (st ! a))"
  proof (rule map_cong [OF refl])
    fix c assume "c \<in> set (snd (st ! a))"
    then have c: "c < length st" "a < c" using ch by auto
    then have "length st - c \<le> f" "length st - c \<le> g'"
      using Suc.prems(3,4) g by linarith+
    then show "section_at f st c = section_at g' st c"
      using Suc.IH [OF Suc.prems(1) c(1)] by blast
  qed
  then show ?case by (simp add: g)
qed

lemma build_section_tree_fuel:
  "build_section_tree markers tx
     = (let b = build_store markers tx
        in map (section_at (length (b_store b) + n) (b_store b)) (b_roots b))"
proof -
  have ok: "builder_ok (build_store markers tx) (length markers)"
    using build_upto_ok [of "length markers" markers tx] by (simp add: build_store_upto)
  then have "store_ok (b_store (build_store markers tx))"
    and "\<forall>a\<in>set (b_roots (build_store markers tx)).
           a < length (b_store (build_store markers tx))"
    by (simp_all add: builder_ok_def)
  then show ?thesis
    by (auto simp: build_section_tree_def Let_def intro!: section_at_enough)
qed

lemma build_section_tree_strict:
  "\<forall>s\<in>set (build_section_tree markers tx). strict_levels s"
proof -
  have ok: "builder_ok (build_store markers tx) (length markers)"
    using build_upto_ok [of "length markers" markers tx] by (simp add: build_store_upto)
  then have "store_ok (b_store (build_store markers tx))"
    and "\<forall>a\<in>set (b_roots (build_store markers tx)).
           a < length (b_store (build_store markers tx))"
    by (simp_all add: builder_ok_def)
  then show ?thesis
    by (simp add: build_section_tree_def Let_def section_at_strict)
qed

text \<open>
  A section is what the store holds at an address: it carries the fields of the object
  there, and its subsections are, in order, the sections of the object's subsections.
\<close>

fun represents :: "store \<Rightarrow> nat \<Rightarrow> Section \<Rightarrow> bool" where
  "represents st a (Section d subs) =
     (d = fst (st ! a) \<and> list_all2 (represents st) (snd (st ! a)) subs)"

lemma section_at_represents:
  "store_ok st \<Longrightarrow> a < length st \<Longrightarrow> length st - a \<le> fuel \<Longrightarrow>
   represents st a (section_at fuel st a)"
proof (induction fuel arbitrary: a)
  case 0
  then show ?case by simp
next
  case (Suc fuel)
  have ch: "\<forall>c\<in>set (snd (st ! a)). c < length st \<and> a < c"
    using Suc.prems(1,2) unfolding store_ok_def by blast
  have "\<forall>c\<in>set (snd (st ! a)). represents st c (section_at fuel st c)"
  proof
    fix c assume "c \<in> set (snd (st ! a))"
    then have c: "c < length st" "a < c" using ch by auto
    then have "length st - c \<le> fuel" using Suc.prems(3) by linarith
    then show "represents st c (section_at fuel st c)"
      using Suc.IH [OF Suc.prems(1) c(1)] by blast
  qed
  then show ?case
    by (simp add: list_all2_map2 list_all2_same)
qed

lemma build_section_tree_represents:
  "list_all2 (represents (b_store (build_store markers tx)))
     (b_roots (build_store markers tx)) (build_section_tree markers tx)"
proof -
  have ok: "builder_ok (build_store markers tx) (length markers)"
    using build_upto_ok [of "length markers" markers tx] by (simp add: build_store_upto)
  then have s: "store_ok (b_store (build_store markers tx))"
    and r: "\<forall>a\<in>set (b_roots (build_store markers tx)).
           a < length (b_store (build_store markers tx))"
    by (simp_all add: builder_ok_def)
  have "\<forall>a\<in>set (b_roots (build_store markers tx)).
          represents (b_store (build_store markers tx)) a
            (section_at (length (b_store (build_store markers tx)))
               (b_store (build_store markers tx)) a)"
    using s r by (simp add: section_at_represents)
  then show ?thesis
    by (simp add: build_section_tree_def Let_def list_all2_map2 list_all2_same)
qed

text \<open>
  C6.  For every marker list.  The builder starts empty and reads the markers in
  order.  At marker \<open>k\<close> it pops every stack entry whose level is greater than or
  equal to the marker's, so that the stack keeps exactly its entries of strictly lower
  level; it creates the new section at address \<open>k\<close>, without subsections; it appends
  \<open>k\<close> as the last subsection of the topmost remaining stack entry, the deepest open
  section of strictly lower level, and changes no other object, or appends \<open>k\<close> to the
  roots when no open section has a lower level; and it pushes \<open>k\<close>.  The forest
  returned is the one the final roots and store denote, and in it every subsection has
  a level strictly greater than its parent's.
\<close>

theorem build_section_tree_levels:
  "build_upto markers tx 0 = \<lparr>b_store = [], b_roots = [], b_stack = []\<rparr>
   \<and> build_store markers tx = build_upto markers tx (length markers)
   \<and> (\<forall>k<length markers.
         let b = build_upto markers tx k;
             b' = build_upto markers tx (Suc k);
             lower = filter (\<lambda>a. level_at (b_store b) a < m_level (markers ! k)) (b_stack b);
             section = (new_section markers tx k (markers ! k), [])
         in length (b_store b) = k
            \<and> s_level (fst section) = m_level (markers ! k)
            \<and> b_stack b' = k # lower
            \<and> stack_sorted (b_store b') (b_stack b')
            \<and> (case lower of
                  [] \<Rightarrow> b_roots b' = b_roots b @ [k]
                         \<and> b_store b' = b_store b @ [section]
                | parent # others \<Rightarrow>
                    parent < k
                    \<and> b_roots b' = b_roots b
                    \<and> b_store b' =
                        (b_store b)[parent := (fst (b_store b ! parent),
                                               snd (b_store b ! parent) @ [k])] @ [section]))
   \<and> list_all2 (represents (b_store (build_store markers tx)))
        (b_roots (build_store markers tx)) (build_section_tree markers tx)
   \<and> (\<forall>s\<in>set (build_section_tree markers tx). strict_levels s)"
proof (intro conjI allI impI)
  show "build_upto markers tx 0 = \<lparr>b_store = [], b_roots = [], b_stack = []\<rparr>"
    by (rule build_upto_0)
next
  show "build_store markers tx = build_upto markers tx (length markers)"
    by (rule build_store_upto)
next
  show "list_all2 (represents (b_store (build_store markers tx)))
        (b_roots (build_store markers tx)) (build_section_tree markers tx)"
    by (rule build_section_tree_represents)
next
  show "\<forall>s\<in>set (build_section_tree markers tx). strict_levels s"
    by (rule build_section_tree_strict)
next
  fix k assume k: "k < length markers"
  let ?b = "build_upto markers tx k"
  let ?b' = "build_upto markers tx (Suc k)"
  let ?lower = "filter (\<lambda>a. level_at (b_store ?b) a < m_level (markers ! k)) (b_stack ?b)"
  let ?sec = "(new_section markers tx k (markers ! k), [] :: nat list)"
  have ok: "builder_ok ?b k" using k by (simp add: build_upto_ok)
  have ok': "builder_ok ?b' (Suc k)" using k by (simp add: build_upto_ok)
  have step: "?b' = build_step markers tx ?b (k, markers ! k)"
    using k by (rule build_upto_Suc)
  note S = build_step_shape [OF ok, where m = "markers ! k" and markers = markers and tx = tx]
  have s0: "length (b_store ?b) = k" using ok by (simp add: builder_ok_def)
  have sl: "s_level (fst ?sec) = m_level (markers ! k)" by (simp add: new_section_level)
  have s1: "b_stack ?b' = k # ?lower" using S(1) by (simp only: step)
  have s2: "stack_sorted (b_store ?b') (b_stack ?b')"
    using ok' by (simp add: builder_ok_def)
  have s3: "case ?lower of
              [] \<Rightarrow> b_roots ?b' = b_roots ?b @ [k] \<and> b_store ?b' = b_store ?b @ [?sec]
            | parent # others \<Rightarrow>
                parent < k
                \<and> b_roots ?b' = b_roots ?b
                \<and> b_store ?b' =
                    (b_store ?b)[parent := (fst (b_store ?b ! parent),
                                           snd (b_store ?b ! parent) @ [k])] @ [?sec]"
  proof (cases ?lower)
    case Nil
    then show ?thesis using S(2) by (simp only: step) simp
  next
    case (Cons parent others)
    have "parent \<in> set ?lower"
      by (simp only: Cons) simp
    then have "parent \<in> set (b_stack ?b)"
      by simp
    then have p: "parent < k"
      using ok by (simp add: builder_ok_def)
    have "b_roots ?b' = b_roots ?b
          \<and> b_store ?b' = add_subsection (b_store ?b) parent k @ [?sec]"
      using S(3) [OF Cons] by (simp only: step)
    then show ?thesis
      using Cons p by (simp add: add_subsection_def)
  qed
  show "let b = ?b; b' = ?b';
            lower = filter (\<lambda>a. level_at (b_store b) a < m_level (markers ! k)) (b_stack b);
            section = (new_section markers tx k (markers ! k), [])
         in length (b_store b) = k
            \<and> s_level (fst section) = m_level (markers ! k)
            \<and> b_stack b' = k # lower
            \<and> stack_sorted (b_store b') (b_stack b')
            \<and> (case lower of
                  [] \<Rightarrow> b_roots b' = b_roots b @ [k]
                         \<and> b_store b' = b_store b @ [section]
                | parent # others \<Rightarrow>
                    parent < k
                    \<and> b_roots b' = b_roots b
                    \<and> b_store b' =
                        (b_store b)[parent := (fst (b_store b ! parent),
                                               snd (b_store b ! parent) @ [k])] @ [section])"
    unfolding Let_def using s0 sl s1 s2 s3 by blast
qed

text \<open>The markers of \<open>siman_doc\<close>: a siman at 0 and seifim at 19 and 39.\<close>

definition siman_doc_markers :: "Marker list" where
  "siman_doc_markers =
     [\<lparr>m_type = ''siman'', m_title = [1505, 1497, 1502, 1503, 32, 1488], m_position = 0, m_level = 1\<rparr>,
      \<lparr>m_type = ''seif'', m_title = [1505, 1506, 1497, 1507, 32, 1488], m_position = 19, m_level = 3\<rparr>,
      \<lparr>m_type = ''seif'', m_title = [1505, 1506, 1497, 1507, 32, 1489], m_position = 39, m_level = 3\<rparr>]"

lemma scan_markers_siman_doc: "scan_markers siman_doc = Inr siman_doc_markers"
  by code_simp

text \<open>The title of a section with the titles of its subsections.\<close>

definition titles :: "Section \<Rightarrow> ustr \<times> ustr list" where
  "titles s = (s_title (sdata s), map (\<lambda>c. s_title (sdata c)) (subsections s))"

theorem build_section_tree_levels_witness:
  "map titles (build_section_tree siman_doc_markers siman_doc) = [([1505, 1497, 1502, 1503, 32, 1488], [[1505, 1506, 1497, 1507, 32, 1488], [1505, 1506, 1497, 1507, 32, 1489]])]
   \<and> list_all strict_levels (build_section_tree siman_doc_markers siman_doc)
   \<and> b_stack (build_upto siman_doc_markers siman_doc 2) = [1, 0]
   \<and> map (level_at (b_store (build_upto siman_doc_markers siman_doc 2))) [1, 0] = [3, 1]
   \<and> b_stack (build_upto siman_doc_markers siman_doc 3) = [2, 0]
   \<and> map snd (b_store (build_upto siman_doc_markers siman_doc 3)) = [[1, 2], [], []]
   \<and> map snd (b_store (build_upto siman_doc_markers siman_doc 2)) = [[1], []]
   \<and> b_roots (build_store siman_doc_markers siman_doc) = [0]"
proof -
  have e: "map titles (build_section_tree siman_doc_markers siman_doc)
             = [([1505, 1497, 1502, 1503, 32, 1488], [[1505, 1506, 1497, 1507, 32, 1488], [1505, 1506, 1497, 1507, 32, 1489]])]
   \<and> b_stack (build_upto siman_doc_markers siman_doc 2) = [1, 0]
   \<and> map (level_at (b_store (build_upto siman_doc_markers siman_doc 2))) [1, 0] = [3, 1]
   \<and> b_stack (build_upto siman_doc_markers siman_doc 3) = [2, 0]
   \<and> map snd (b_store (build_upto siman_doc_markers siman_doc 3)) = [[1, 2], [], []]
   \<and> map snd (b_store (build_upto siman_doc_markers siman_doc 2)) = [[1], []]
   \<and> b_roots (build_store siman_doc_markers siman_doc) = [0]"
    by code_simp
  have "\<forall>s\<in>set (build_section_tree siman_doc_markers siman_doc). strict_levels s"
    using build_section_tree_levels [of siman_doc_markers siman_doc] by blast
  then show ?thesis using e by (simp add: list_all_iff)
qed

section \<open>Construction of a configuration\<close>

text \<open>
  C3 (as amended).  \<open>ChunkingConfig\<close> has no validator: construction succeeds for every
  four integers and stores them as given.
\<close>

theorem ChunkingConfig_accepts_any:
  "\<exists>cfg. mk_ChunkingConfig target mx mn overlap = Inr cfg
        \<and> target_tokens cfg = target \<and> max_tokens cfg = mx
        \<and> min_tokens cfg = mn \<and> overlap_tokens cfg = overlap"
  by (simp add: mk_ChunkingConfig_def)

text \<open>
  C3 as stated fails: a configuration with \<open>target_tokens = 0\<close> and
  \<open>max_tokens < min_tokens\<close> is constructed, and chunking the text \<open>a b c\<close> with
  it fails later, with the \<open>IndexError\<close> of an empty window.
\<close>

definition bad_config :: ChunkingConfig where
  "bad_config = \<lparr>target_tokens = 0, max_tokens = 2, min_tokens = 5, overlap_tokens = 0\<rparr>"

theorem ChunkingConfig_rejects_invalid_counterexample:
  "mk_ChunkingConfig 0 2 5 0 = Inr bad_config
   \<and> \<not> valid_config bad_config
   \<and> chunk bad_config exact_offset [] (book_of (lit ''a b c'')) None = Inl IndexError"
proof -
  have "chunk bad_config exact_offset [] (book_of (lit ''a b c'')) None = Inl IndexError"
    by code_simp
  then show ?thesis
    by (simp add: mk_ChunkingConfig_def bad_config_def valid_config_def)
qed

section \<open>The paragraph fallback\<close>

text \<open>The offsets the cursor scan finds for the paragraphs in turn.\<close>

fun para_offsets :: "ustr \<Rightarrow> nat \<Rightarrow> ustr list \<Rightarrow> nat list" where
  "para_offsets tx cur [] = []"
| "para_offsets tx cur (para # paras) =
     (if str_strip para = [] then cur # para_offsets tx (cur + length para + 1) paras
      else para_start_of tx para cur
             # para_offsets tx (para_start_of tx para cur + length para) paras)"

text \<open>
  The chunks of one paragraph, as the amended claim has them: nothing for a blank
  paragraph; one chunk of kind \<open>paragraph\<close> with an empty path when the token count is
  at most \<open>max_tokens\<close>; the sliding-window splitter, with the paragraph's offset as
  base, when it is above.
\<close>

definition paragraph_chunks ::
  "ChunkingConfig \<Rightarrow> offset_fn \<Rightarrow> BookMeta \<Rightarrow> ustr \<Rightarrow> nat \<Rightarrow> error + Chunk list" where
  "paragraph_chunks cfg po bk para start =
     (if str_strip para = [] then Inr []
      else if int (estimate_tokens (str_strip para)) \<le> max_tokens cfg
      then Inr [mk_Chunk (str_strip para) bk [] ''paragraph''
                  (int start) (int (start + length para))
                  (int (estimate_tokens (str_strip para)))]
      else sliding_window_chunks cfg po (str_strip para) bk [] ''paragraph'' (int start))"

text \<open>The same with the bounds of the claim as stated: one chunk strictly under
  \<open>max_tokens\<close>, the splitter at or above.\<close>

definition paragraph_chunks_claimed ::
  "ChunkingConfig \<Rightarrow> offset_fn \<Rightarrow> BookMeta \<Rightarrow> ustr \<Rightarrow> nat \<Rightarrow> error + Chunk list" where
  "paragraph_chunks_claimed cfg po bk para start =
     (if int (estimate_tokens (str_strip para)) < max_tokens cfg
      then Inr [mk_Chunk (str_strip para) bk [] ''paragraph''
                  (int start) (int (start + length para))
                  (int (estimate_tokens (str_strip para)))]
      else sliding_window_chunks cfg po (str_strip para) bk [] ''paragraph'' (int start))"

lemma paragraph_loop_each:
  "paragraph_loop cfg po tx bk [] 0 cur paras
     = collect (\<lambda>(para, start). paragraph_chunks cfg po bk para start)
         (zip paras (para_offsets tx cur paras))"
proof (induction paras arbitrary: cur)
  case Nil
  then show ?case by simp
next
  case (Cons para paras)
  show ?case
  proof (cases "str_strip para = []")
    case True
    then show ?thesis
      using Cons.IH [of "cur + length para + 1"]
      by (simp add: paragraph_chunks_def split: sum.splits)
  next
    case False
    then show ?thesis
      using Cons.IH [of "para_start_of tx para cur + length para"]
      by (simp add: paragraph_chunks_def Let_def split: sum.splits)
  qed
qed

text \<open>
  C4 (as amended).  In the fallback path the chunks are those of the paragraphs, one
  after the other, each paragraph at the offset the cursor scan finds for it: a
  paragraph that is not blank and has at most \<open>max_tokens\<close> tokens gives exactly one
  chunk of kind \<open>paragraph\<close> with an empty path, and one above \<open>max_tokens\<close> goes to
  the sliding-window splitter with its offset as base.
\<close>

theorem chunk_by_paragraphs_each:
  "chunk_by_paragraphs cfg po tx bk [] 0
     = collect (\<lambda>(para, start). paragraph_chunks cfg po bk para start)
         (zip (re_split PARAGRAPH_BREAK tx)
              (para_offsets tx 0 (re_split PARAGRAPH_BREAK tx)))"
  by (simp add: chunk_by_paragraphs_def paragraph_loop_each)

text \<open>Two paragraphs, \<open>a b c\<close> followed by a space, and \<open>d\<close>; the first has exactly
  \<open>max_tokens\<close> tokens under \<open>small_config\<close>.\<close>

definition para_doc :: ustr where
  "para_doc = lit ''a b c '' @ [10, 10] @ lit ''d''"

definition no_meta :: BookMeta where
  "no_meta = \<lparr>book_id = [], book_title = [], book_author = [], language = []\<rparr>"

theorem chunk_by_paragraphs_each_witness:
  "re_split PARAGRAPH_BREAK para_doc = [lit ''a b c '', lit ''d'']
   \<and> para_offsets para_doc 0 (re_split PARAGRAPH_BREAK para_doc) = [0, 8]
   \<and> chunk_by_paragraphs small_config exact_offset para_doc no_meta [] 0
       = Inr [mk_Chunk (lit ''a b c'') no_meta [] ''paragraph'' 0 6 3,
              mk_Chunk (lit ''d'') no_meta [] ''paragraph'' 8 9 1]"
proof -
  have e: "re_split PARAGRAPH_BREAK para_doc = [lit ''a b c '', lit ''d'']
   \<and> para_offsets para_doc 0 (re_split PARAGRAPH_BREAK para_doc) = [0, 8]
   \<and> collect (\<lambda>(para, start). paragraph_chunks small_config exact_offset no_meta para start)
         (zip (re_split PARAGRAPH_BREAK para_doc)
              (para_offsets para_doc 0 (re_split PARAGRAPH_BREAK para_doc)))
       = Inr [mk_Chunk (lit ''a b c'') no_meta [] ''paragraph'' 0 6 3,
              mk_Chunk (lit ''d'') no_meta [] ''paragraph'' 8 9 1]"
    by code_simp
  show ?thesis
    unfolding chunk_by_paragraphs_each by (rule e)
qed

text \<open>
  C4 as stated fails at the bound: the first paragraph of \<open>para_doc\<close> has exactly
  \<open>max_tokens\<close> tokens and is emitted directly, with the end offset of the unstripped
  paragraph, where the splitter would give the end of the stripped text.
\<close>

theorem chunk_by_paragraphs_claimed_counterexample:
  "valid_config small_config
   \<and> int (estimate_tokens (str_strip (lit ''a b c ''))) = max_tokens small_config
   \<and> map_sum id (map c_char_end)
       (chunk_by_paragraphs small_config exact_offset para_doc no_meta [] 0) = Inr [6, 9]
   \<and> map_sum id (map c_char_end)
       (collect (\<lambda>(para, start).
           paragraph_chunks_claimed small_config exact_offset no_meta para start)
         (zip (re_split PARAGRAPH_BREAK para_doc)
              (para_offsets para_doc 0 (re_split PARAGRAPH_BREAK para_doc)))) = Inr [5, 9]"
proof -
  have "valid_config small_config"
    by (simp add: valid_config_def small_config_def)
  moreover have "int (estimate_tokens (str_strip (lit ''a b c ''))) = max_tokens small_config
   \<and> map_sum id (map c_char_end)
       (chunk_by_paragraphs small_config exact_offset para_doc no_meta [] 0) = Inr [6, 9]
   \<and> map_sum id (map c_char_end)
       (collect (\<lambda>(para, start).
           paragraph_chunks_claimed small_config exact_offset no_meta para start)
         (zip (re_split PARAGRAPH_BREAK para_doc)
              (para_offsets para_doc 0 (re_split PARAGRAPH_BREAK para_doc)))) = Inr [5, 9]"
    by code_simp
  ultimately show ?thesis by simp
qed

section \<open>Markers inside a line\<close>

text \<open>A line that refers to a siman katan in running text (\<open>r'h s"q '\<close> in Hebrew
  letters): three letters, a space, then samekh, quotation mark, qof, space, alef.\<close>

definition inline_ref :: ustr where
  "inline_ref = [1512, 1488, 1492, 32, 1505, 34, 1511, 32, 1488]"

text \<open>
  C5 fails for the pattern \<open>siman_katan\<close>, the only one of the table without \<open>^\<close>: the
  scanner returns a marker at offset 4 of \<open>inline_ref\<close>, which is neither the start of
  the text nor preceded by a newline.
\<close>

theorem siman_katan_marker_inside_line:
  "map_sum id (map (\<lambda>m. (m_type m, m_position m))) (scan_markers inline_ref)
     = Inr [(''siman_katan'', 4)]
   \<and> inline_ref ! 3 = 32"
  by code_simp

section \<open>Coverage\<close>



lemma chunk_words_Nil [simp]: "chunk_words [] = []"
  by (simp add: chunk_words_def)

subsection \<open>Windows\<close>




subsection \<open>Leaf sections\<close>





subsection \<open>Paragraphs\<close>


section \<open>Idempotence of the merger\<close>

text \<open>A chunk of a given text at the empty path, with the token count of its text.\<close>

definition word_chunk :: "ustr \<Rightarrow> Chunk" where
  "word_chunk s = mk_Chunk s no_meta [] ''paragraph'' 0 0 (int (estimate_tokens s))"

text \<open>
  C8.  The merger is idempotent: on every list of chunks whose token count is the
  word count of their text (the invariant of \<open>Chunk\<close>, which every chunk the
  assembler emits satisfies), and for every configuration, merging the merger's own
  output returns that output unchanged; equivalently, in the output no two adjacent
  chunks share a section path while the earlier one is below \<open>min_tokens\<close> and the
  two together fit \<open>max_tokens\<close>.
\<close>

theorem merge_small_chunks_idempotent:
  assumes "\<forall>c\<in>set chunks. counted c"
  shows "merge_small_chunks cfg (merge_small_chunks cfg chunks) = merge_small_chunks cfg chunks
         \<and> no_merge cfg (merge_small_chunks cfg chunks)"
proof -
  have "\<forall>c\<in>set chunks. 0 \<le> c_token_count c"
    using assms by (simp add: counted_def)
  then show ?thesis by (rule merge_idempotent_nonneg)
qed

theorem merge_small_chunks_idempotent_witness:
  "list_all counted [word_chunk (lit ''a b''), word_chunk (lit ''c''), word_chunk (lit ''d e f'')]
   \<and> map c_token_count
        (merge_small_chunks default_config
           [word_chunk (lit ''a b''), word_chunk (lit ''c''), word_chunk (lit ''d e f'')]) = [6]
   \<and> merge_small_chunks default_config
        (merge_small_chunks default_config
           [word_chunk (lit ''a b''), word_chunk (lit ''c''), word_chunk (lit ''d e f'')])
       = merge_small_chunks default_config
           [word_chunk (lit ''a b''), word_chunk (lit ''c''), word_chunk (lit ''d e f'')]
   \<and> no_merge default_config
        (merge_small_chunks default_config
           [word_chunk (lit ''a b''), word_chunk (lit ''c''), word_chunk (lit ''d e f'')])"
proof -
  have c: "list_all counted
             [word_chunk (lit ''a b''), word_chunk (lit ''c''), word_chunk (lit ''d e f'')]"
    by (simp add: counted_def word_chunk_def mk_Chunk_def estimate_tokens_def)
  have t: "map c_token_count
        (merge_small_chunks default_config
           [word_chunk (lit ''a b''), word_chunk (lit ''c''), word_chunk (lit ''d e f'')]) = [6]"
    by code_simp
  have "\<forall>c\<in>set [word_chunk (lit ''a b''), word_chunk (lit ''c''), word_chunk (lit ''d e f'')].
          counted c"
    using c by (simp add: list_all_iff)
  from merge_small_chunks_idempotent [OF this, of default_config] show ?thesis
    using c t by blast
qed

subsection \<open>Splitting at blank lines keeps the words\<close>









subsection \<open>The merger and the index assigner keep the texts\<close>







end
